theory Spec2Isabelle
  imports
    Main
    "HOL-Library.Word"
    "HOL-Library.Multiset"
    "HOL-Library.List_Lexorder"
    "HOL-Library.Char_ord"
    "HOL-Library.Product_Lexorder"
    "HOL-Library.Sublist"
begin

section \<open>Pager: fixed-size records in one file\<close>

text \<open>
  \<^verbatim>\<open>Pager\<close> (bptree.hh) reads and writes records of a fixed size \<open>S = sizeof(Register)\<close>
  at byte offset \<open>n * S\<close> of one file. The B+ tree, the record files and the top-K file
  only ever hold whole records, so a file is kept as the list of its slots, each slot
  decoded. \<open>blank\<close> is what a slot of zero bytes decodes to: writing past the end of the
  file leaves such slots in the gap. A seek to a negative offset fails, and the write or
  read after it does nothing.

  The stream keeps its error state between calls. \<^verbatim>\<open>save\<close> and \<^verbatim>\<open>recover\<close> begin with
  \<^verbatim>\<open>clear()\<close>, so what they do depends on the file alone; they leave \<^verbatim>\<open>failbit\<close> set when the
  seek fails (a negative offset) or when the read gets less than a whole record (a slot at
  or past the end): \<open>save_fails\<close>, \<open>recover_fails\<close>. \<^verbatim>\<open>get_id\<close> does not clear: on a failed
  stream \<^verbatim>\<open>seekg\<close> does nothing and \<^verbatim>\<open>tellg()\<close> is \<open>-1\<close>, which the division by
  \<^verbatim>\<open>sizeof(Register)\<close> takes as \<open>2^64 - 1\<close>; the quotient is returned as \<^verbatim>\<open>int64_t\<close>. On a good
  stream it is the length of the file in bytes divided by \<^verbatim>\<open>sizeof(Register)\<close>: \<open>rs\<close> is the
  size of the records the file holds, \<open>S\<close> the size of the \<^verbatim>\<open>Register\<close> of the call.
\<close>

type_synonym 'r slots = "'r list"

definition get_id :: "nat \<Rightarrow> nat \<Rightarrow> bool \<Rightarrow> 'r slots \<Rightarrow> int" where
  "get_id rs S failed f =
     (if failed then sint (word_of_int ((2 ^ 64 - 1) div int S) :: 64 word)
      else sint (word_of_int (int (length f * rs) div int S) :: 64 word))"

definition save_fails :: "int \<Rightarrow> bool" where
  "save_fails n = (n < 0)"

definition save :: "'r \<Rightarrow> int \<Rightarrow> 'r \<Rightarrow> 'r slots \<Rightarrow> 'r slots" where
  "save blank n reg f =
     (if n < 0 then f
      else if nat n < length f then f[nat n := reg]
      else f @ replicate (nat n - length f) blank @ [reg])"

definition recover :: "int \<Rightarrow> 'r slots \<Rightarrow> 'r option" where
  "recover n f = (if 0 \<le> n \<and> nat n < length f then Some (f ! nat n) else None)"

definition recover_fails :: "int \<Rightarrow> 'r slots \<Rightarrow> bool" where
  "recover_fails n f = (recover n f = None)"

section \<open>Node\<close>

text \<open>
  A key record (\<^verbatim>\<open>IvKey\<close>, \<^verbatim>\<open>TkKey\<close>, \<^verbatim>\<open>Key\<close>) is a key and a slot id; its comparison
  operators look at the key only.
\<close>

type_synonym 'k entry = "'k \<times> int"

definition key_lt :: "'k::linorder entry \<Rightarrow> 'k entry \<Rightarrow> bool" where
  "key_lt a b = (fst a < fst b)"

definition key_le :: "'k::linorder entry \<Rightarrow> 'k entry \<Rightarrow> bool" where
  "key_le a b = (fst a \<le> fst b)"

definition key_eq :: "'k::linorder entry \<Rightarrow> 'k entry \<Rightarrow> bool" where
  "key_eq a b = (fst a = fst b)"

definition ORDER :: nat where
  "ORDER = 64"

record 'k node =
  page_id :: int
  count :: nat
  right :: int
  data :: "'k entry list"
  children :: "int list"

text \<open>
  The constructors of \<^verbatim>\<open>Node\<close> set \<open>page_id\<close>, \<open>count\<close> and \<open>right\<close>; \<open>children\<close> is filled
  with 0; the key records of \<open>data\<close> are default-constructed, which sets their id to \<open>-1\<close>
  and leaves the key bytes as they are in memory: \<open>u\<close> stands for those bytes.
\<close>

definition Node :: "'k \<Rightarrow> int \<Rightarrow> 'k node" where
  "Node u pid =
     \<lparr>page_id = pid, count = 0, right = 0,
      data = replicate (ORDER + 1) (u, - 1), children = replicate (ORDER + 2) 0\<rparr>"

function shift_right :: "'k node \<Rightarrow> nat \<Rightarrow> nat \<Rightarrow> 'k node \<times> nat" where
  "shift_right n j pos =
     (if j > pos
      then shift_right
             (n\<lparr>data := (data n)[j := data n ! (j - 1)],
                children := (children n)[j + 1 := children n ! j]\<rparr>) (j - 1) pos
      else (n, j))"
  by pat_completeness auto
termination
  by (relation "measure (\<lambda>(n, j, pos). j)") auto

declare shift_right.simps [simp del]

definition insert_in_node :: "'k node \<Rightarrow> nat \<Rightarrow> 'k entry \<Rightarrow> 'k node" where
  "insert_in_node n pos v =
     (case shift_right n (count n) pos of
        (m, j) \<Rightarrow>
          m\<lparr>data := (data m)[j := v],
            children := (children m)[j + 1 := children m ! j],
            count := count n + 1\<rparr>)"

definition is_overflow :: "'k node \<Rightarrow> bool" where
  "is_overflow n = (count n > ORDER)"

definition is_leaf :: "'k node \<Rightarrow> bool" where
  "is_leaf n = (children n ! 0 = 0)"

section \<open>Iterator\<close>

datatype 'k page = PBlank | PHeader int int | PNode "'k node"

record 'k iterator =
  index :: nat
  current_pos :: "'k node"

text \<open>
  \<^verbatim>\<open>operator++\<close>: within the leaf while \<open>index < count - 1\<close>; otherwise \<open>index\<close> becomes 0 and
  the node is replaced by the sentinel \<open>Node(-1)\<close> when \<open>right = 0\<close>, or overwritten by the
  page \<open>right\<close> (left as it is when that read fails). A slot that holds no node is outside
  this model: the result is \<open>None\<close>.
\<close>

definition iter_inc :: "'k \<Rightarrow> 'k page slots \<Rightarrow> 'k iterator \<Rightarrow> 'k iterator option" where
  "iter_inc u pg it =
     (if index it + 1 < count (current_pos it) then Some (it\<lparr>index := index it + 1\<rparr>)
      else if right (current_pos it) = 0
        then Some \<lparr>index = 0, current_pos = Node u (- 1)\<rparr>
      else (case recover (right (current_pos it)) pg of
              None \<Rightarrow> Some (it\<lparr>index := 0\<rparr>)
            | Some (PNode m) \<Rightarrow> Some \<lparr>index = 0, current_pos = m\<rparr>
            | Some _ \<Rightarrow> None))"

definition deref :: "'k iterator \<Rightarrow> 'k entry" where
  "deref it = data (current_pos it) ! index it"

definition is_end :: "'k iterator \<Rightarrow> bool" where
  "is_end it = (page_id (current_pos it) = - 1)"

section \<open>BplusTree\<close>

datatype State = BT_OVERFLOW | BT_UNDERFLOW | OK

datatype InNode = LEFT | RIGHT

record 'k bptree =
  root_id :: int
  hcount :: int
  pager :: "'k page slots"

definition save_header :: "'k bptree \<Rightarrow> 'k bptree" where
  "save_header t = t\<lparr>pager := save PBlank 0 (PHeader (root_id t) (hcount t)) (pager t)\<rparr>"

text \<open>The constructor on an empty pager: the root is written to slot 1, the header to slot 0.\<close>

definition BplusTree_new :: "'k \<Rightarrow> 'k bptree" where
  "BplusTree_new u =
     save_header \<lparr>root_id = 1, hcount = 1, pager = save PBlank 1 (PNode ((Node u 1))) []\<rparr>"

definition write_node :: "int \<Rightarrow> 'k node \<Rightarrow> 'k bptree \<Rightarrow> 'k bptree" where
  "write_node i n t = t\<lparr>pager := save PBlank i (PNode n) (pager t)\<rparr>"

definition read_node :: "'k \<Rightarrow> 'k bptree \<Rightarrow> int \<Rightarrow> 'k node option" where
  "read_node u t i =
     (case recover i (pager t) of
        None \<Rightarrow> Some (Node u (- 1))
      | Some (PNode n) \<Rightarrow> Some n
      | Some _ \<Rightarrow> None)"

definition new_node :: "'k \<Rightarrow> 'k bptree \<Rightarrow> 'k node \<times> 'k bptree" where
  "new_node u t =
     (let t1 = t\<lparr>hcount := hcount t + 1\<rparr> in (Node u (hcount t1), save_header t1))"

function scan_lt :: "'k::linorder node \<Rightarrow> 'k entry \<Rightarrow> nat \<Rightarrow> nat" where
  "scan_lt n v pos =
     (if pos < count n \<and> key_lt (data n ! pos) v then scan_lt n v (pos + 1) else pos)"
  by pat_completeness auto
termination
  by (relation "measure (\<lambda>(n, v, pos). count n - pos)") auto

declare scan_lt.simps [simp del]

function scan_le :: "'k::linorder node \<Rightarrow> 'k entry \<Rightarrow> nat \<Rightarrow> nat" where
  "scan_le n v pos =
     (if pos < count n \<and> key_le (data n ! pos) v then scan_le n v (pos + 1) else pos)"
  by pat_completeness auto
termination
  by (relation "measure (\<lambda>(n, v, pos). count n - pos)") auto

declare scan_le.simps [simp del]

text \<open>
  \<^verbatim>\<open>reset_children(parent, child, p, &iter)\<close>. In \<^verbatim>\<open>insert_helper\<close> the left child and the
  overflowed node are one object; \<open>alias\<close> says so, and then every read of \<open>parent\<close> sees
  what has been written to \<open>child\<close>.
\<close>

definition bound :: "InNode \<Rightarrow> nat" where
  "bound p = (case p of LEFT \<Rightarrow> (ORDER + 1) div 2 | RIGHT \<Rightarrow> ORDER + 1)"

function reset_loop ::
  "bool \<Rightarrow> nat \<Rightarrow> 'k node \<Rightarrow> 'k node \<Rightarrow> nat \<Rightarrow> nat \<Rightarrow> 'k node \<times> nat \<times> nat" where
  "reset_loop alias b parent child i iter =
     (if iter < b then
        let c1 = child\<lparr>children :=
                   (children child)[i := children (if alias then child else parent) ! iter]\<rparr>;
            c2 = c1\<lparr>data := (data c1)[i := data (if alias then c1 else parent) ! iter]\<rparr>;
            c3 = c2\<lparr>count := count c2 + 1\<rparr>
        in reset_loop alias b parent c3 (i + 1) (iter + 1)
      else (child, i, iter))"
  by pat_completeness auto
termination
  by (relation "measure (\<lambda>(alias, b, parent, child, i, iter). b - iter)") auto

declare reset_loop.simps [simp del]

definition reset_children ::
  "bool \<Rightarrow> 'k node \<Rightarrow> 'k node \<Rightarrow> InNode \<Rightarrow> nat \<Rightarrow> 'k node \<times> nat" where
  "reset_children alias parent child p iter =
     (case reset_loop alias (bound p) parent child 0 iter of
        (c, i, iter') \<Rightarrow>
          (c\<lparr>children := (children c)[i := children (if alias then c else parent) ! iter']\<rparr>,
           iter'))"

definition write_these_nodes ::
  "'k node \<Rightarrow> 'k node \<Rightarrow> 'k node \<Rightarrow> nat \<Rightarrow> 'k bptree \<Rightarrow> 'k bptree" where
  "write_these_nodes n1 n2 n3 pos t =
     (let n1' = n1\<lparr>children := (children n1)[pos := page_id n2, pos + 1 := page_id n3]\<rparr>
      in write_node (page_id n3) n3 (write_node (page_id n2) n2 (write_node (page_id n1') n1' t)))"

text \<open>
  \<^verbatim>\<open>insert_helper(n, value)\<close> returns the tree (header and file) and the state it reports.
  The recursion follows page ids read from the file, so it is a partial function:
  \<open>None\<close> is a descent that does not end (or leaves the model, see \<open>read_node\<close>).
\<close>

definition split_child ::
  "'k \<Rightarrow> 'k bptree \<Rightarrow> 'k node \<Rightarrow> nat \<Rightarrow> ('k bptree \<times> 'k node) option" where
  "split_child u t n pos =
     Option.bind (read_node u t (children n ! pos)) (\<lambda>overflow.
       let left0 = overflow\<lparr>count := 0\<rparr>;
           (right0, t1) = new_node u t;
           (left1, iter) = reset_children True left0 left0 LEFT 0;
           n1 = insert_in_node n pos (data left1 ! iter)
       in if \<not> is_leaf left1 then
            let (right1, iter') = reset_children False left1 right0 RIGHT (iter + 1)
            in Some (write_these_nodes n1 left1 right1 pos t1,
                     n1\<lparr>children := (children n1)[pos := page_id left1, pos + 1 := page_id right1]\<rparr>)
          else
            let right1 = right0\<lparr>right := right left1\<rparr>;
                left2 = left1\<lparr>right := page_id right1\<rparr>;
                n2 = n1\<lparr>children := (children n1)[pos + 1 := page_id right1]\<rparr>;
                (right2, iter') = reset_children False left2 right1 RIGHT iter
            in Some (write_these_nodes n2 left2 right2 pos t1,
                     n2\<lparr>children := (children n2)[pos := page_id left2, pos + 1 := page_id right2]\<rparr>))"

partial_function (option) insert_helper ::
  "'k::linorder \<Rightarrow> 'k bptree \<Rightarrow> 'k node \<Rightarrow> 'k entry \<Rightarrow> ('k bptree \<times> State) option" where
  "insert_helper u t n v =
     (let pos = scan_lt n v 0 in
      if children n ! pos \<noteq> 0 then
        Option.bind (read_node u t (children n ! pos)) (\<lambda>child.
        Option.bind (insert_helper u t child v) (\<lambda>(t1, state).
          if state = BT_OVERFLOW then
            Option.bind (split_child u t1 n pos) (\<lambda>(t2, n').
              Some (t2, if is_overflow n' then BT_OVERFLOW else OK))
          else Some (t1, if is_overflow n then BT_OVERFLOW else OK)))
      else
        let n' = insert_in_node n pos v
        in Some (write_node (page_id n') n' t, if is_overflow n' then BT_OVERFLOW else OK))"

declare insert_helper.simps [code]

definition split_root :: "'k \<Rightarrow> 'k bptree \<Rightarrow> 'k bptree option" where
  "split_root u t =
     Option.bind (read_node u t (root_id t)) (\<lambda>overflow.
       let (left0, t1) = new_node u t;
           (right0, t2) = new_node u t1;
           (left1, iter) = reset_children False overflow left0 LEFT 0;
           overflow1 = overflow\<lparr>data := (data overflow)[0 := data overflow ! iter]\<rparr>;
           left2 = left1\<lparr>right := page_id right0\<rparr>;
           iter1 = (if \<not> is_leaf overflow1 then iter + 1 else iter);
           (right1, iter2) = reset_children False overflow1 right0 RIGHT iter1;
           overflow2 = overflow1\<lparr>count := 1\<rparr>
       in Some (write_these_nodes overflow2 left2 right1 0 t2))"

definition BplusTree_insert :: "'k::linorder \<Rightarrow> 'k entry \<Rightarrow> 'k bptree \<Rightarrow> 'k bptree option" where
  "BplusTree_insert u v t =
     Option.bind (read_node u t (root_id t)) (\<lambda>root.
     Option.bind (insert_helper u t root v) (\<lambda>(t1, state).
       if state = BT_OVERFLOW then split_root u t1 else Some t1))"

partial_function (option) find_helper ::
  "'k::linorder \<Rightarrow> 'k bptree \<Rightarrow> 'k entry \<Rightarrow> 'k node \<Rightarrow> 'k iterator option" where
  "find_helper u t v root =
     (if \<not> is_leaf root then
        Option.bind (read_node u t (children root ! scan_le root v 0)) (\<lambda>child.
          find_helper u t v child)
      else
        let pos = scan_lt root v 0;
            it = \<lparr>index = pos, current_pos = root\<rparr>
        in if pos = count root then iter_inc u (pager t) it else Some it)"

declare find_helper.simps [code]

definition end_iter :: "'k \<Rightarrow> 'k iterator" where
  "end_iter u = \<lparr>index = 0, current_pos = Node u (- 1)\<rparr>"

definition BplusTree_find :: "'k::linorder \<Rightarrow> 'k bptree \<Rightarrow> 'k entry \<Rightarrow> 'k iterator option" where
  "BplusTree_find u t v =
     Option.bind (read_node u t (root_id t)) (\<lambda>root.
     Option.bind (find_helper u t v root) (\<lambda>it.
       Some (if key_eq (deref it) v then it else end_iter u)))"

text \<open>\<^verbatim>\<open>begin()\<close>: down \<open>children[0]\<close> to the leftmost leaf, at index 0.\<close>

partial_function (option) begin_helper :: "'k \<Rightarrow> 'k bptree \<Rightarrow> 'k node \<Rightarrow> 'k iterator option" where
  "begin_helper u t root =
     (if \<not> is_leaf root then
        Option.bind (read_node u t (children root ! 0)) (begin_helper u t)
      else Some \<lparr>index = 0, current_pos = root\<rparr>)"

declare begin_helper.simps [code]

definition BplusTree_begin :: "'k \<Rightarrow> 'k bptree \<Rightarrow> 'k iterator option" where
  "BplusTree_begin u t = Option.bind (read_node u t (root_id t)) (begin_helper u t)"

definition BplusTree_find_geq :: "'k::linorder \<Rightarrow> 'k bptree \<Rightarrow> 'k entry \<Rightarrow> 'k iterator option" where
  "BplusTree_find_geq u t v =
     Option.bind (read_node u t (root_id t)) (\<lambda>root. find_helper u t v root)"

text \<open>A sequence of \<^verbatim>\<open>insert\<close> calls on a fresh tree.\<close>

definition inserts :: "'k::linorder \<Rightarrow> 'k entry list \<Rightarrow> 'k bptree option" where
  "inserts u vs = foldl (\<lambda>t v. Option.bind t (BplusTree_insert u v)) (Some (BplusTree_new u)) vs"

section \<open>Pager on bytes: construction and \<^verbatim>\<open>recover\<close>\<close>

text \<open>
  What \<^verbatim>\<open>Pager::Pager\<close> and \<^verbatim>\<open>Pager::recover\<close> do depends on \<^verbatim>\<open>std::fstream\<close>, which is
  not code of this repository. Its behaviour is taken from the C++ standard:
  \<^item> opening with \<^verbatim>\<open>in | out\<close> succeeds only on a file that exists and may be read and
    written; with \<^verbatim>\<open>in | out | trunc\<close> it also creates the file;
  \<^item> \<^verbatim>\<open>open\<close> on a stream that is already open fails and sets \<^verbatim>\<open>failbit\<close>, and the file
    is left alone;
  \<^item> after the constructor, \<^verbatim>\<open>fail()\<close> holds exactly when \<^verbatim>\<open>is_open()\<close> does not;
  \<^item> \<^verbatim>\<open>seekg\<close> to a negative offset fails, and a \<^verbatim>\<open>read\<close> on a failed stream extracts
    nothing; \<^verbatim>\<open>read\<close> stores the bytes it gets and \<^verbatim>\<open>gcount()\<close> is their number.
\<close>

type_synonym byte = "8 word"

datatype file_status = Absent | Locked "byte list" | Present "byte list"

datatype pager_error = database_not_exist | database_opening_error

record Pager =
  emptyf :: bool
  is_open :: bool
  fail :: bool

definition fstream_open :: "file_status \<Rightarrow> bool" where
  "fstream_open fs = (case fs of Present bs \<Rightarrow> True | _ \<Rightarrow> False)"

text \<open>\<^verbatim>\<open>open(file_name, in | out | trunc | binary)\<close> on the stream the constructor left.\<close>

definition reopen_trunc :: "Pager \<Rightarrow> file_status \<Rightarrow> Pager \<times> file_status" where
  "reopen_trunc p fs =
     (if is_open p then (p\<lparr>fail := True\<rparr>, fs)
      else (case fs of
              Locked bs \<Rightarrow> (p\<lparr>fail := True\<rparr>, fs)
            | _ \<Rightarrow> (p\<lparr>is_open := True, fail := False\<rparr>, Present [])))"

definition Pager_new :: "file_status \<Rightarrow> bool \<Rightarrow> pager_error + Pager \<times> file_status" where
  "Pager_new fs create =
     (let opened = fstream_open fs;
          p = \<lparr>emptyf = False, is_open = opened, fail = \<not> opened\<rparr>
      in if \<not> create \<and> \<not> is_open p then Inl database_not_exist
         else if \<not> create \<and> fail p then Inl database_opening_error
         else if create then Inr (reopen_trunc (p\<lparr>emptyf := True\<rparr>) fs)
         else Inr (p, fs))"

text \<open>
  \<^verbatim>\<open>recover(n, reg)\<close> on an open file with bytes \<open>f\<close>, for records of \<open>S\<close> bytes: the offset
  \<open>n * sizeof(Register)\<close> is computed in 64 bits and read as a signed offset. The result is
  \<open>gcount() > 0\<close> and the bytes of \<open>*reg\<close> afterwards.
\<close>

definition offset :: "nat \<Rightarrow> 64 word \<Rightarrow> int" where
  "offset S n = sint (n * of_nat S)"

definition Pager_recover :: "nat \<Rightarrow> 64 word \<Rightarrow> byte list \<Rightarrow> byte list \<Rightarrow> bool \<times> byte list" where
  "Pager_recover S n reg f =
     (if offset S n < 0 then (False, reg)
      else let got = take S (drop (nat (offset S n)) f)
           in (length got > 0, got @ drop (length got) reg))"

section \<open>Records and keys of the three indices\<close>

record Record =
  pos :: "32 word"
  len :: "32 word"

definition Record0 :: Record where
  "Record0 = \<lparr>pos = 0, len = 0\<rparr>"

text \<open>
  \<^verbatim>\<open>snprintf(k.key, 64, "%s", s.c_str())\<close>: the text up to the first NUL, cut to 63 bytes.
  \<^verbatim>\<open>strcmp\<close> and \<^verbatim>\<open>std::string(k.key)\<close> read this text only, so a \<^verbatim>\<open>Key\<close> is its text and
  its id, and \<^verbatim>\<open>strcmp\<close> is the lexicographic order of the bytes.
\<close>

definition c_str :: "string \<Rightarrow> string" where
  "c_str s = takeWhile (\<lambda>c. c \<noteq> CHR 0x00) s"

definition key_text :: "string \<Rightarrow> string" where
  "key_text s = take 63 (c_str s)"

text \<open>
  \<^verbatim>\<open>SubDatabase\<close>, \<^verbatim>\<open>InvertedIndex\<close> and \<^verbatim>\<open>TopK\<close> hold the same members: the next record
  slot \<^verbatim>\<open>id\<close>, the record file and the tree (whose pager is the index file).
\<close>

record ('r, 'k) SubDatabase =
  next_id :: int
  record_manager :: "'r slots"
  bt :: "'k bptree"

datatype DatabaseState = AUTHOR | TITLE

record Database =
  title :: "(Record, string) SubDatabase"
  author :: "(Record, string) SubDatabase"

definition here_of :: "Database \<Rightarrow> DatabaseState \<Rightarrow> (Record, string) SubDatabase" where
  "here_of db state = (case state of AUTHOR \<Rightarrow> author db | TITLE \<Rightarrow> title db)"

definition set_here :: "Database \<Rightarrow> DatabaseState \<Rightarrow> (Record, string) SubDatabase \<Rightarrow> Database" where
  "set_here db state h = (case state of AUTHOR \<Rightarrow> db\<lparr>author := h\<rparr> | TITLE \<Rightarrow> db\<lparr>title := h\<rparr>)"

definition SubDatabase_new :: "'k \<Rightarrow> ('r, 'k) SubDatabase" where
  "SubDatabase_new u = \<lparr>next_id = 0, record_manager = [], bt = BplusTree_new u\<rparr>"

definition Database_new :: "string \<Rightarrow> Database" where
  "Database_new u = \<lparr>title = SubDatabase_new u, author = SubDatabase_new u\<rparr>"

definition Database_insert ::
  "string \<Rightarrow> Record \<Rightarrow> string \<Rightarrow> DatabaseState \<Rightarrow> Database \<Rightarrow> Database option" where
  "Database_insert u r key state db =
     (let here = here_of db state;
          recs = save Record0 (next_id here) r (record_manager here)
      in Option.bind (BplusTree_insert u (key_text key, next_id here) (bt here)) (\<lambda>t.
           Some (set_here db state
                   (here\<lparr>record_manager := recs, bt := t, next_id := next_id here + 1\<rparr>))))"

definition read_record :: "'r \<Rightarrow> int \<Rightarrow> 'r slots \<Rightarrow> 'r" where
  "read_record s n f = (case recover n f of None \<Rightarrow> s | Some r \<Rightarrow> r)"

partial_function (option) find_loop ::
  "string \<Rightarrow> (Record, string) SubDatabase \<Rightarrow> string \<Rightarrow> string iterator \<Rightarrow>
   (Record \<times> string) list \<Rightarrow> (Record \<times> string) list option" where
  "find_loop u here v it results =
     (if prefix v (fst (deref it)) then
        Option.bind (iter_inc u (pager (bt here)) it) (\<lambda>it'.
          find_loop u here v it'
            (results @ [(read_record Record0 (snd (deref it)) (record_manager here),
                         fst (deref it))]))
      else Some results)"

declare find_loop.simps [code]

definition Database_find ::
  "string \<Rightarrow> string \<Rightarrow> DatabaseState \<Rightarrow> Database \<Rightarrow> (Record \<times> string) list option" where
  "Database_find u v state db =
     (let here = here_of db state in
      Option.bind (BplusTree_find_geq u (bt here) (key_text v, - 1)) (\<lambda>it.
        find_loop u here v it []))"

section \<open>InvertedIndex\<close>

text \<open>
  \<^verbatim>\<open>std::hash<std::string>\<close> is not code of this repository: \<open>hash_fn\<close> is a parameter.
  \<^verbatim>\<open>in >> word\<close> splits at white space.
\<close>

definition isspace :: "char \<Rightarrow> bool" where
  "isspace c = (c \<in> set [CHR '' '', CHR 0x09, CHR 0x0A, CHR 0x0B, CHR 0x0C, CHR 0x0D])"

fun words_from :: "string \<Rightarrow> string \<Rightarrow> string list" where
  "words_from w [] = (if w = [] then [] else [w])"
| "words_from w (c # cs) =
     (if isspace c then (if w = [] then words_from [] cs else w # words_from [] cs)
      else words_from (w @ [c]) cs)"

type_synonym InvertedIndex = "(Record, 64 word) SubDatabase"

fun insert_words ::
  "64 word \<Rightarrow> (string \<Rightarrow> 64 word) \<Rightarrow> string list \<Rightarrow> 32 word \<Rightarrow> 32 word \<Rightarrow>
   InvertedIndex \<Rightarrow> InvertedIndex option" where
  "insert_words u hash_fn [] p l ii = Some ii"
| "insert_words u hash_fn (w # ws) p l ii =
     Option.bind (BplusTree_insert u (hash_fn w, next_id ii) (bt ii)) (\<lambda>t.
       insert_words u hash_fn ws p l
         (ii\<lparr>record_manager := save Record0 (next_id ii) \<lparr>pos = p, len = l\<rparr> (record_manager ii),
             bt := t, next_id := next_id ii + 1\<rparr>))"

definition InvertedIndex_insert ::
  "64 word \<Rightarrow> (string \<Rightarrow> 64 word) \<Rightarrow> string \<Rightarrow> 32 word \<Rightarrow> 32 word \<Rightarrow>
   InvertedIndex \<Rightarrow> InvertedIndex option" where
  "InvertedIndex_insert u hash_fn key p l ii = insert_words u hash_fn (words_from [] key) p l ii"

fun build ::
  "64 word \<Rightarrow> (string \<Rightarrow> 64 word) \<Rightarrow> string list \<Rightarrow> 32 word \<Rightarrow> 32 word \<Rightarrow>
   InvertedIndex \<Rightarrow> InvertedIndex option" where
  "build u hash_fn [] p l ii = Some ii"
| "build u hash_fn (s # source) p l ii =
     Option.bind (InvertedIndex_insert u hash_fn s p l ii) (build u hash_fn source p l)"

type_synonym result_set = "(32 word \<times> 32 word) set"

partial_function (option) collect ::
  "64 word \<Rightarrow> InvertedIndex \<Rightarrow> 64 word \<Rightarrow> 64 word iterator \<Rightarrow> result_set \<Rightarrow> result_set option" where
  "collect u ii hash_code it result =
     (if fst (deref it) = hash_code then
        Option.bind (iter_inc u (pager (bt ii)) it) (\<lambda>it'.
          collect u ii hash_code it'
            (let s = read_record Record0 (snd (deref it)) (record_manager ii)
             in insert (pos s, len s) result))
      else Some result)"

declare collect.simps [code]

definition find_single_value ::
  "64 word \<Rightarrow> (string \<Rightarrow> 64 word) \<Rightarrow> InvertedIndex \<Rightarrow> string \<Rightarrow> result_set option" where
  "find_single_value u hash_fn ii v =
     (let hash_code = hash_fn v in
      Option.bind (BplusTree_find_geq u (bt ii) (hash_code - 1, - 1)) (\<lambda>it.
        collect u ii hash_code it {}))"

text \<open>\<^verbatim>\<open>intersection\<close> reads \<^verbatim>\<open>result_list[0]\<close> of an empty list: outside the model.\<close>

definition intersection :: "result_set list \<Rightarrow> result_set option" where
  "intersection result_list =
     (case result_list of
        [] \<Rightarrow> None
      | [r] \<Rightarrow> Some r
      | r0 # r1 # rest \<Rightarrow> Some (foldl (\<lambda>acc r. r \<inter> acc) (r0 \<inter> r1) rest))"

fun find_all ::
  "64 word \<Rightarrow> (string \<Rightarrow> 64 word) \<Rightarrow> InvertedIndex \<Rightarrow> string list \<Rightarrow> result_set list option" where
  "find_all u hash_fn ii [] = Some []"
| "find_all u hash_fn ii (v # vs) =
     Option.bind (find_single_value u hash_fn ii v) (\<lambda>r.
       Option.bind (find_all u hash_fn ii vs) (\<lambda>rs. Some (r # rs)))"

definition InvertedIndex_find ::
  "64 word \<Rightarrow> (string \<Rightarrow> 64 word) \<Rightarrow> InvertedIndex \<Rightarrow> string list \<Rightarrow>
   (Record \<times> string) list option" where
  "InvertedIndex_find u hash_fn ii value_list =
     Option.bind (find_all u hash_fn ii value_list) (\<lambda>result_list.
       Option.bind (intersection result_list) (\<lambda>result_intersection.
         Some (map (\<lambda>i. (\<lparr>pos = fst i, len = snd i\<rparr>, []))
                 (sorted_list_of_set result_intersection))))"

section \<open>TopK\<close>

record TkRecord =
  tcount :: "32 word"
  tkname :: string

definition TkRecord0 :: TkRecord where
  "TkRecord0 = \<lparr>tcount = 0, tkname = []\<rparr>"

text \<open>
  \<^verbatim>\<open>TopK\<close> has the members of \<^verbatim>\<open>SubDatabase\<close> and the vector \<open>vec\<close>, which only \<^verbatim>\<open>make_topk\<close>
  and \<^verbatim>\<open>print\<close> touch. \<open>rm_fail\<close> is the \<^verbatim>\<open>failbit\<close> of the stream of \<^verbatim>\<open>record_manager\<close>, which
  \<^verbatim>\<open>make_topk\<close> reads through \<^verbatim>\<open>get_id\<close>. \<^verbatim>\<open>sizeof(TkRecord)\<close> is 68.
\<close>

record TopK = "(TkRecord, 64 word) SubDatabase" +
  vec :: "TkRecord list"
  rm_fail :: bool

definition TkRecord_size :: nat where
  "TkRecord_size = 68"

definition TopK_new :: "64 word \<Rightarrow> TopK" where
  "TopK_new u =
     \<lparr>next_id = 0, record_manager = [], bt = BplusTree_new u, vec = [], rm_fail = False\<rparr>"

text \<open>
  \<^verbatim>\<open>TopK::insert(word)\<close>. \<^verbatim>\<open>TkRecord r;\<close> sets \<open>count = 0\<close> and leaves \<open>tkname\<close> as it is in
  memory: \<open>w\<close> stands for those bytes, read as a C string. \<open>r\<close> keeps them when \<^verbatim>\<open>recover\<close>
  fails. The last call on the record file is the \<^verbatim>\<open>save\<close>, which decides \<open>rm_fail\<close>.
\<close>

definition TopK_insert ::
  "64 word \<Rightarrow> string \<Rightarrow> (string \<Rightarrow> 64 word) \<Rightarrow> string \<Rightarrow> TopK \<Rightarrow> TopK option" where
  "TopK_insert u w hash_fn word tk =
     (let pphash = hash_fn word in
      Option.bind (BplusTree_find u (bt tk) (pphash, - 1)) (\<lambda>it.
        let r = read_record \<lparr>tcount = 0, tkname = w\<rparr> (snd (deref it)) (record_manager tk)
        in if word \<noteq> tkname r then
             Option.bind (BplusTree_insert u (pphash, next_id tk) (bt tk)) (\<lambda>t.
               Some (tk\<lparr>bt := t,
                        record_manager :=
                          save TkRecord0 (next_id tk) \<lparr>tcount = 1, tkname = key_text word\<rparr>
                            (record_manager tk),
                        next_id := next_id tk + 1,
                        rm_fail := save_fails (next_id tk)\<rparr>))
           else
             Some (tk\<lparr>record_manager :=
                        save TkRecord0 (snd (deref it)) (r\<lparr>tcount := tcount r + 1\<rparr>)
                          (record_manager tk),
                      rm_fail := save_fails (snd (deref it))\<rparr>)))"

text \<open>
  \<^verbatim>\<open>std::make_heap\<close> with \<^verbatim>\<open>std::greater\<close>, \<^verbatim>\<open>std::pop_heap\<close> without a comparator and
  \<^verbatim>\<open>std::sort\<close> with \<^verbatim>\<open>std::greater\<close> are library code: \<open>make_heap_gt\<close>, \<open>pop_heap_lt\<close> and
  \<open>sort_gt\<close> are parameters, each from the vector to the vector it leaves.
  \<^verbatim>\<open>vec.size() > N\<close> compares in \<^verbatim>\<open>size_t\<close>, to which the \<^verbatim>\<open>int16_t\<close> \<open>N\<close> is converted.
\<close>

definition size_gt :: "'a list \<Rightarrow> int \<Rightarrow> bool" where
  "size_gt v N = (int (length v) > N mod 2 ^ 64)"

partial_function (option) pop_loop ::
  "(TkRecord list \<Rightarrow> TkRecord list) \<Rightarrow> (TkRecord list \<Rightarrow> TkRecord list) \<Rightarrow> int \<Rightarrow>
   TkRecord list \<Rightarrow> TkRecord list option" where
  "pop_loop make_heap_gt pop_heap_lt N v =
     (if size_gt v N then pop_loop make_heap_gt pop_heap_lt N (butlast (pop_heap_lt (make_heap_gt v)))
      else Some v)"

declare pop_loop.simps [code]

text \<open>
  \<^verbatim>\<open>make_topk(N)\<close>: \<^verbatim>\<open>for (int i = 0; i < record_manager->get_id(&t); i++)\<close>. The bound is
  asked again before each pass, of the stream as the \<^verbatim>\<open>recover\<close> of the pass before left it.
  \<open>vec\<close> is not emptied first. \<open>i\<close> is an \<^verbatim>\<open>int\<close>: \<^verbatim>\<open>i++\<close> at \<open>2^31 - 1\<close> is undefined, and the
  result is \<open>None\<close>, as it is when the inner loop does not end.
\<close>

function topk_loop ::
  "string \<Rightarrow> (TkRecord list \<Rightarrow> TkRecord list) \<Rightarrow> (TkRecord list \<Rightarrow> TkRecord list) \<Rightarrow> int \<Rightarrow>
   int \<Rightarrow> TopK \<Rightarrow> TopK option" where
  "topk_loop w make_heap_gt pop_heap_lt N i tk =
     (if i < get_id TkRecord_size TkRecord_size (rm_fail tk) (record_manager tk) then
        let r = read_record \<lparr>tcount = 0, tkname = w\<rparr> i (record_manager tk);
            tk1 = tk\<lparr>rm_fail := recover_fails i (record_manager tk)\<rparr>
        in Option.bind (pop_loop make_heap_gt pop_heap_lt N (make_heap_gt (vec tk1 @ [r]))) (\<lambda>v.
             if i + 1 < 2 ^ 31
             then topk_loop w make_heap_gt pop_heap_lt N (i + 1) (tk1\<lparr>vec := v\<rparr>)
             else None)
      else Some tk)"
  by pat_completeness auto
termination
  by (relation "measure (\<lambda>(w, mh, ph, N, i, tk). nat (2 ^ 31 - i))") auto

declare topk_loop.simps [simp del]

definition make_topk ::
  "string \<Rightarrow> (TkRecord list \<Rightarrow> TkRecord list) \<Rightarrow> (TkRecord list \<Rightarrow> TkRecord list) \<Rightarrow> int \<Rightarrow>
   TopK \<Rightarrow> TopK option" where
  "make_topk w make_heap_gt pop_heap_lt N tk = topk_loop w make_heap_gt pop_heap_lt N 0 tk"

text \<open>
  \<^verbatim>\<open>print(K)\<close> sorts \<open>vec\<close> and prints \<open>vec[0]\<close> to \<open>vec[K - 1]\<close>: the result is the sorted
  vector and the lines printed. \<open>vec[i]\<close> beyond the vector is outside the model.
\<close>

definition TopK_print ::
  "(TkRecord list \<Rightarrow> TkRecord list) \<Rightarrow> int \<Rightarrow> TopK \<Rightarrow> (TopK \<times> (string \<times> 32 word) list) option" where
  "TopK_print sort_gt K tk =
     (let v = sort_gt (vec tk) in
      if K \<le> int (length v)
      then Some (tk\<lparr>vec := v\<rparr>, map (\<lambda>r. (tkname r, tcount r)) (take (nat K) v))
      else None)"

section \<open>Statements: what the library calls and the examples are\<close>

text \<open>
  Library calls in the examples. \<^verbatim>\<open>make_heap\<close> with \<^verbatim>\<open>greater\<close> permutes the vector into a heap
  with a record of least count in front: a vector in ascending count is one. \<^verbatim>\<open>pop_heap\<close> is
  called without the comparator; libstdc++ and libc++ move the first record to the last
  place and arrange the others, here left in their order. \<^verbatim>\<open>sort\<close> with \<^verbatim>\<open>greater\<close> permutes
  into non-increasing count. \<^verbatim>\<open>make_topk\<close> calls \<^verbatim>\<open>make_heap\<close> again before every other use
  of the order, and \<^verbatim>\<open>print\<close> sorts: which heap the library builds does not show in what is
  retained, and shows in what is printed only among records of equal count.
\<close>

definition make_heap_gt0 :: "TkRecord list \<Rightarrow> TkRecord list" where
  "make_heap_gt0 = sort_key tcount"

definition pop_heap_lt0 :: "TkRecord list \<Rightarrow> TkRecord list" where
  "pop_heap_lt0 = rotate1"

definition sort_gt0 :: "TkRecord list \<Rightarrow> TkRecord list" where
  "sort_gt0 = rev \<circ> sort_key tcount"

definition scenario6 :: TopK where
  "scenario6 =
     \<lparr>next_id = 5,
      record_manager =
        [\<lparr>tcount = 5, tkname = ''a''\<rparr>, \<lparr>tcount = 2, tkname = ''b''\<rparr>, \<lparr>tcount = 7, tkname = ''c''\<rparr>,
         \<lparr>tcount = 1, tkname = ''d''\<rparr>, \<lparr>tcount = 4, tkname = ''e''\<rparr>],
      bt = BplusTree_new 0, vec = [], rm_fail = False\<rparr>"

definition keys65 :: "nat entry list" where
  "keys65 = map (\<lambda>k. (k, int k)) [1..<66]"

definition keys66 :: "nat entry list" where
  "keys66 = map (\<lambda>k. (k, int k)) [1..<66] @ [(33, 100)]"

definition len_hash :: "string \<Rightarrow> 64 word" where
  "len_hash s = of_nat (length s)"

definition names65 :: "string list" where
  "names65 = map (\<lambda>i. [char_of (97 + i div 26), char_of (97 + i mod 26)]) [0..<65]"

fun Database_inserts ::
  "string \<Rightarrow> (Record \<times> string) list \<Rightarrow> DatabaseState \<Rightarrow> Database \<Rightarrow> Database option" where
  "Database_inserts u [] state db = Some db"
| "Database_inserts u ((r, k) # ks) state db =
     Option.bind (Database_insert u r k state db) (Database_inserts u ks state)"

section \<open>The tree a file holds\<close>

text \<open>
  For the invariants the file is read as a tree: \<open>nmatch\<close> says what a page holds (its
  entries \<open>es\<close> and, for an internal node, the page ids \<open>cs\<close> of its children), \<open>atree\<close> is
  the tree of these pages, \<open>rep\<close> says that a file holds a tree, and \<open>ains\<close>, \<open>ainsert\<close> are
  \<^verbatim>\<open>insert_helper\<close> and \<^verbatim>\<open>insert\<close> on trees.
\<close>

definition half :: nat where
  "half = (ORDER + 1) div 2"

text \<open>A node holds the entries \<open>es\<close> and the child ids \<open>cs\<close> (none for a leaf).\<close>

definition wf_node :: "'k node \<Rightarrow> bool" where
  "wf_node n = (length (data n) = ORDER + 1 \<and> length (children n) = ORDER + 2)"

definition nmatch :: "'k node \<Rightarrow> int \<Rightarrow> int \<Rightarrow> 'k entry list \<Rightarrow> int list \<Rightarrow> bool" where
  "nmatch n p r es cs =
     (page_id n = p \<and> right n = r \<and> count n = length es \<and> wf_node n \<and>
      length es \<le> ORDER + 1 \<and> take (length es) (data n) = es \<and>
      (if cs = [] then (\<forall>k < ORDER + 2. children n ! k = 0)
       else length cs = length es + 1 \<and> take (length cs) (children n) = cs \<and> 0 \<notin> set cs))"

definition lpos :: "'k::linorder entry \<Rightarrow> 'k entry list \<Rightarrow> nat" where
  "lpos v es = length (takeWhile (\<lambda>e. key_lt e v) es)"

definition lepos :: "'k::linorder entry \<Rightarrow> 'k entry list \<Rightarrow> nat" where
  "lepos v es = length (takeWhile (\<lambda>e. key_le e v) es)"

datatype 'k atree = Lf int int "'k entry list" | Nd int int "'k entry list" "'k atree list"

fun apid :: "'k atree \<Rightarrow> int" where
  "apid (Lf p r es) = p" | "apid (Nd p r es ts) = p"

fun aright :: "'k atree \<Rightarrow> int" where
  "aright (Lf p r es) = r" | "aright (Nd p r es ts) = r"

fun aents :: "'k atree \<Rightarrow> 'k entry list" where
  "aents (Lf p r es) = es" | "aents (Nd p r es ts) = es"

fun akids :: "'k atree \<Rightarrow> 'k atree list" where
  "akids (Lf p r es) = []" | "akids (Nd p r es ts) = ts"

fun pids :: "'k atree \<Rightarrow> int list" where
  "pids (Lf p r es) = [p]"
| "pids (Nd p r es ts) = p # concat (map pids ts)"

definition top :: "'k page list \<Rightarrow> 'k atree \<Rightarrow> bool" where
  "top pg a = (0 < apid a \<and> nat (apid a) < length pg \<and>
     (\<exists>n. pg ! nat (apid a) = PNode n \<and>
          nmatch n (apid a) (aright a) (aents a) (map apid (akids a))))"

fun rep :: "'k page list \<Rightarrow> 'k atree \<Rightarrow> bool" where
  "rep pg (Lf p r es) = top pg (Lf p r es)"
| "rep pg (Nd p r es ts) = (top pg (Nd p r es ts) \<and> ts \<noteq> [] \<and> (\<forall>t\<in>set ts. rep pg t))"

fun cap :: "'k atree \<Rightarrow> bool" where
  "cap (Lf p r es) = (length es \<le> ORDER)"
| "cap (Nd p r es ts) = (length es \<le> ORDER \<and> (\<forall>t\<in>set ts. cap t))"

definition ins_at :: "nat \<Rightarrow> 'a \<Rightarrow> 'a list \<Rightarrow> 'a list" where
  "ins_at ps v es = take ps es @ v # drop ps es"

fun split_a :: "int \<Rightarrow> 'k atree \<Rightarrow> 'k atree \<times> 'k entry \<times> 'k atree" where
  "split_a q (Lf p r es) = (Lf p q (take half es), es ! half, Lf q r (drop half es))"
| "split_a q (Nd p r es ts) =
     (Nd p r (take half es) (take (half + 1) ts), es ! half,
      Nd q 0 (drop (half + 1) es) (drop (half + 1) ts))"

function ains :: "int \<Rightarrow> 'k::linorder entry \<Rightarrow> 'k atree \<Rightarrow> 'k atree \<times> int" where
  "ains h v (Lf p r es) = (Lf p r (ins_at (lpos v es) v es), h)"
| "ains h v (Nd p r es ts) =
     (if lpos v es < length ts then
        (case ains h v (ts ! lpos v es) of
           (c, h1) \<Rightarrow>
             if ORDER < length (aents c) then
               (case split_a (h1 + 1) c of
                  (l, m, rt) \<Rightarrow>
                    (Nd p r (ins_at (lpos v es) m es)
                       (take (lpos v es) ts @ l # rt # drop (lpos v es + 1) ts), h1 + 1))
             else (Nd p r es (ts[lpos v es := c]), h1))
      else (Nd p r es ts, h))"
  by pat_completeness auto

termination
proof (relation "measure (\<lambda>(h, v, a). size a)", goal_cases)
  case 1
  show ?case by simp
next
  case (2 h v p r es ts)
  then have "ts ! lpos v es \<in> set ts" by simp
  then have "size (ts ! lpos v es) \<le> size_list size ts" by (rule size_list_estimation') simp
  then show ?case by simp
qed

fun rootl :: "int \<Rightarrow> int \<Rightarrow> 'k atree \<Rightarrow> 'k atree" where
  "rootl q q2 (Lf p r es) = Lf q q2 (take half es)"
| "rootl q q2 (Nd p r es ts) = Nd q q2 (take half es) (take (half + 1) ts)"

fun rootr :: "int \<Rightarrow> 'k atree \<Rightarrow> 'k atree" where
  "rootr q (Lf p r es) = Lf q 0 (drop half es)"
| "rootr q (Nd p r es ts) = Nd q 0 (drop (half + 1) es) (drop (half + 1) ts)"

definition ainsert :: "int \<Rightarrow> 'k::linorder entry \<Rightarrow> 'k atree \<Rightarrow> 'k atree \<times> int" where
  "ainsert h v a =
     (case ains h v a of
        (c, h1) \<Rightarrow>
          if ORDER < length (aents c) then
            (Nd (apid c) (aright c) [aents c ! half]
               [rootl (h1 + 1) (h1 + 2) c, rootr (h1 + 2) c], h1 + 2)
          else (c, h1))"

definition capk :: "'k atree \<Rightarrow> bool" where
  "capk a = (length (aents a) \<le> ORDER + 1 \<and> (\<forall>t\<in>set (akids a). cap t))"

definition tinv :: "'k bptree \<Rightarrow> 'k atree \<Rightarrow> bool" where
  "tinv t a = (rep (pager t) a \<and> cap a \<and> distinct (pids a) \<and> set (pids a) = {1 .. hcount t} \<and>
     int (length (pager t)) = hcount t + 1 \<and> root_id t = apid a)"

definition a0 :: "'k atree \<times> int" where
  "a0 = (Lf 1 0 [], 1)"

definition ainserts :: "'k::linorder entry list \<Rightarrow> 'k atree \<times> int" where
  "ainserts vs = foldl (\<lambda>(a, h) v. ainsert h v a) a0 vs"

text \<open>
  The pages a traversal visits (\<^verbatim>\<open>print_helper\<close>): the root, and from a node the pages
  \<open>children[0..count]\<close> that are not 0.
\<close>

definition child_ids :: "'k node \<Rightarrow> int list" where
  "child_ids n = filter (\<lambda>c. c \<noteq> 0) (take (count n + 1) (children n))"

fun level :: "'k bptree \<Rightarrow> nat \<Rightarrow> int list" where
  "level t 0 = [root_id t]"
| "level t (Suc d) =
     concat (map (\<lambda>p. case recover p (pager t) of Some (PNode n) \<Rightarrow> child_ids n | _ \<Rightarrow> [])
       (level t d))"

fun minok :: "'k atree \<Rightarrow> bool" where
  "minok (Lf p r es) = (half \<le> length es)"
| "minok (Nd p r es ts) = (half \<le> length es \<and> (\<forall>t\<in>set ts. minok t))"

definition kminok :: "'k atree \<Rightarrow> bool" where
  "kminok a = (\<forall>t\<in>set (akids a). minok t)"

fun subs :: "'k atree \<Rightarrow> 'k atree list" where
  "subs (Lf p r es) = [Lf p r es]"
| "subs (Nd p r es ts) = Nd p r es ts # concat (map subs ts)"

text \<open>
  What \<^verbatim>\<open>find\<close> relies on. \<open>lents\<close> lists the entries of the leaves from left to right. In
  an ordered tree (\<open>ord\<close>) an internal node with \<open>n\<close> entries has \<open>n + 1\<close> children and its
  entry \<open>i\<close> has the key of the first entry below child \<open>i + 1\<close>, as the splits of
  \<^verbatim>\<open>insert_helper\<close> and \<^verbatim>\<open>insert\<close> leave it. \<open>LP\<close> is the set of the pages of the leaves that
  hold an entry, \<open>LR\<close> the set of the \<^verbatim>\<open>right\<close> fields of the leaves; \<open>rvi\<close> says that a
  \<^verbatim>\<open>right\<close> field of a leaf is 0 or the page of a leaf that holds an entry, which is what
  \<^verbatim>\<open>operator++\<close> needs when \<^verbatim>\<open>find_helper\<close> steps past the last entry of a leaf. \<open>rok\<close> is
  the same read on the file: the page \<^verbatim>\<open>right\<close> is a node whose first entry has a key of
  \<open>K\<close>.
\<close>

fun lents :: "'k atree \<Rightarrow> 'k entry list" where
  "lents (Lf p r es) = es"
| "lents (Nd p r es ts) = concat (map lents ts)"

definition sep_ok :: "'k entry \<Rightarrow> 'k atree \<Rightarrow> bool" where
  "sep_ok e c = (lents c \<noteq> [] \<and> fst e = fst (hd (lents c)))"

fun ord :: "'k atree \<Rightarrow> bool" where
  "ord (Lf p r es) = True"
| "ord (Nd p r es ts) =
     (length ts = length es + 1 \<and> (\<forall>t\<in>set ts. ord t) \<and>
      (\<forall>i<length es. sep_ok (es ! i) (ts ! (i + 1))))"

definition ksorted :: "'k::linorder entry list \<Rightarrow> bool" where
  "ksorted xs = sorted (map fst xs)"

fun leaves :: "'k atree \<Rightarrow> 'k atree list" where
  "leaves (Lf p r es) = [Lf p r es]"
| "leaves (Nd p r es ts) = concat (map leaves ts)"

definition LP :: "'k atree \<Rightarrow> int set" where
  "LP a = apid ` {l \<in> set (leaves a). aents l \<noteq> []}"

definition LR :: "'k atree \<Rightarrow> int set" where
  "LR a = aright ` set (leaves a)"

definition rvi :: "'k atree \<Rightarrow> bool" where
  "rvi a = (LR a \<subseteq> insert 0 (LP a))"

definition rok :: "'k page list \<Rightarrow> 'k set \<Rightarrow> 'k atree \<Rightarrow> bool" where
  "rok pg K a =
     (\<forall>l\<in>set (leaves a). aright l = 0 \<or>
        (\<exists>m. recover (aright l) pg = Some (PNode m) \<and> fst (data m ! 0) \<in> K))"

section \<open>B+ tree: the file and the tree it holds\<close>

subsection \<open>Pager slots\<close>

lemma length_save:
  "0 \<le> n \<Longrightarrow> length (save b n r f) = max (length f) (nat n + 1)"
  by (auto simp: save_def)

lemma save_nth_same:
  "0 \<le> n \<Longrightarrow> save b n r f ! nat n = r"
  by (auto simp: save_def nth_append)

lemma save_nth_other:
  "0 \<le> n \<Longrightarrow> k \<noteq> nat n \<Longrightarrow> k < length f \<Longrightarrow> save b n r f ! k = f ! k"
  by (auto simp: save_def nth_append)

lemma recover_Some:
  "0 \<le> n \<Longrightarrow> nat n < length f \<Longrightarrow> recover n f = Some (f ! nat n)"
  by (simp add: recover_def)

subsection \<open>The loops on a node, entry by entry\<close>

lemma shift_right_fields:
  "page_id (fst (shift_right n j ps)) = page_id n \<and>
   count (fst (shift_right n j ps)) = count n \<and>
   right (fst (shift_right n j ps)) = right n \<and>
   length (data (fst (shift_right n j ps))) = length (data n) \<and>
   length (children (fst (shift_right n j ps))) = length (children n) \<and>
   snd (shift_right n j ps) = min j ps"
proof (induction n j ps rule: shift_right.induct)
  case (1 n j ps)
  show ?case
  proof (cases "j > ps")
    case True
    let ?n = "n\<lparr>data := (data n)[j := data n ! (j - 1)],
                children := (children n)[j + 1 := children n ! j]\<rparr>"
    have e: "shift_right n j ps = shift_right ?n (j - 1) ps"
      using True by (subst shift_right.simps) simp
    show ?thesis unfolding e using 1 [OF True] True by simp
  next
    case False
    have e: "shift_right n j ps = (n, j)"
      using False by (subst shift_right.simps) simp
    show ?thesis unfolding e using False by simp
  qed
qed

lemma shift_right_data:
  "j < length (data n) \<Longrightarrow> k < length (data n) \<Longrightarrow>
   data (fst (shift_right n j ps)) ! k =
     (if ps < k \<and> k \<le> j then data n ! (k - 1) else data n ! k)"
proof (induction n j ps arbitrary: k rule: shift_right.induct)
  case (1 n j ps)
  show ?case
  proof (cases "j > ps")
    case True
    let ?n = "n\<lparr>data := (data n)[j := data n ! (j - 1)],
                children := (children n)[j + 1 := children n ! j]\<rparr>"
    have "data (fst (shift_right n j ps)) ! k = data (fst (shift_right ?n (j - 1) ps)) ! k"
      using True by (subst shift_right.simps) simp
    also have "\<dots> = (if ps < k \<and> k \<le> j - 1 then data ?n ! (k - 1) else data ?n ! k)"
      using 1 True by simp
    also have "\<dots> = (if ps < k \<and> k \<le> j then data n ! (k - 1) else data n ! k)"
      using True 1(2,3) by (auto simp: nth_list_update)
    finally show ?thesis .
  next
    case False
    have e: "shift_right n j ps = (n, j)"
      using False by (subst shift_right.simps) simp
    show ?thesis unfolding e using False by auto
  qed
qed

lemma shift_right_children:
  "j + 1 < length (children n) \<Longrightarrow> k < length (children n) \<Longrightarrow>
   children (fst (shift_right n j ps)) ! k =
     (if ps + 1 < k \<and> k \<le> j + 1 then children n ! (k - 1) else children n ! k)"
proof (induction n j ps arbitrary: k rule: shift_right.induct)
  case (1 n j ps)
  show ?case
  proof (cases "j > ps")
    case True
    let ?n = "n\<lparr>data := (data n)[j := data n ! (j - 1)],
                children := (children n)[j + 1 := children n ! j]\<rparr>"
    have "children (fst (shift_right n j ps)) ! k = children (fst (shift_right ?n (j - 1) ps)) ! k"
      using True by (subst shift_right.simps) simp
    also have "\<dots> = (if ps + 1 < k \<and> k \<le> j - 1 + 1 then children ?n ! (k - 1) else children ?n ! k)"
      using 1 True by simp
    also have "\<dots> = (if ps + 1 < k \<and> k \<le> j + 1 then children n ! (k - 1) else children n ! k)"
      using True 1(2,3) by (auto simp: nth_list_update)
    finally show ?thesis .
  next
    case False
    have e: "shift_right n j ps = (n, j)"
      using False by (subst shift_right.simps) simp
    show ?thesis unfolding e using False by auto
  qed
qed

lemma insert_in_node_fields:
  "page_id (insert_in_node n ps v) = page_id n \<and>
   count (insert_in_node n ps v) = count n + 1 \<and>
   right (insert_in_node n ps v) = right n \<and>
   length (data (insert_in_node n ps v)) = length (data n) \<and>
   length (children (insert_in_node n ps v)) = length (children n)"
  using shift_right_fields [of n "count n" ps]
  by (auto simp: insert_in_node_def split: prod.splits)

lemma insert_in_node_data:
  assumes "ps \<le> count n" "count n < length (data n)" "k < length (data n)"
  shows "data (insert_in_node n ps v) ! k =
     (if k = ps then v else if ps < k \<and> k \<le> count n then data n ! (k - 1) else data n ! k)"
proof -
  obtain m j where s: "shift_right n (count n) ps = (m, j)" by (cases "shift_right n (count n) ps")
  have j: "j = ps" using shift_right_fields [of n "count n" ps] s assms(1) by simp
  have m: "data m ! k = (if ps < k \<and> k \<le> count n then data n ! (k - 1) else data n ! k)"
    "length (data m) = length (data n)"
    using shift_right_data [OF assms(2,3), of ps] shift_right_fields [of n "count n" ps] s by simp_all
  show ?thesis using s j m assms by (auto simp: insert_in_node_def nth_list_update)
qed

lemma insert_in_node_children:
  assumes "ps \<le> count n" "count n + 1 < length (children n)" "k < length (children n)"
  shows "children (insert_in_node n ps v) ! k =
     (if k = ps + 1 then children n ! ps
      else if ps + 1 < k \<and> k \<le> count n + 1 then children n ! (k - 1) else children n ! k)"
proof -
  obtain m j where s: "shift_right n (count n) ps = (m, j)" by (cases "shift_right n (count n) ps")
  have j: "j = ps" using shift_right_fields [of n "count n" ps] s assms(1) by simp
  have m: "\<And>k. k < length (children n) \<Longrightarrow> children m ! k =
      (if ps + 1 < k \<and> k \<le> count n + 1 then children n ! (k - 1) else children n ! k)"
    "length (children m) = length (children n)"
    using shift_right_children [OF assms(2), of _ ps] shift_right_fields [of n "count n" ps] s by simp_all
  have "ps < length (children n)" using assms by simp
  then have "children m ! ps = children n ! ps" using m(1) [of ps] by simp
  then show ?thesis using s j m assms by (auto simp: insert_in_node_def nth_list_update)
qed

lemma reset_loop_alias:
  "iter \<le> b \<Longrightarrow>
   reset_loop True b parent child iter iter = (child\<lparr>count := count child + (b - iter)\<rparr>, b, b)"
proof (induction "b - iter" arbitrary: child iter)
  case 0
  then show ?case by (subst reset_loop.simps) simp
next
  case (Suc d)
  then have lt: "iter < b" by simp
  have "reset_loop True b parent child iter iter =
        reset_loop True b parent (child\<lparr>count := count child + 1\<rparr>) (iter + 1) (iter + 1)"
    using lt by (subst reset_loop.simps) (simp add: Let_def)
  also have "\<dots> = (child\<lparr>count := count child + 1 + (b - (iter + 1))\<rparr>, b, b)"
    using Suc(1) [of "iter + 1" "child\<lparr>count := count child + 1\<rparr>"] Suc(2) lt by simp
  finally show ?case using lt by simp
qed

lemma reset_loop_fields:
  "iter \<le> b \<Longrightarrow>
   (case reset_loop False b parent child i iter of (c, i', iter') \<Rightarrow>
      page_id c = page_id child \<and> right c = right child \<and>
      count c = count child + (b - iter) \<and>
      length (data c) = length (data child) \<and> length (children c) = length (children child) \<and>
      i' = i + (b - iter) \<and> iter' = b)"
proof (induction "b - iter" arbitrary: child i iter)
  case 0
  then have e: "reset_loop False b parent child i iter = (child, i, iter)"
    by (subst reset_loop.simps) simp
  show ?case unfolding e using 0 by auto
next
  case (Suc d)
  then have lt: "iter < b" by simp
  let ?c = "child\<lparr>children := (children child)[i := children parent ! iter],
                  data := (data child)[i := data parent ! iter], count := count child + 1\<rparr>"
  have e: "reset_loop False b parent child i iter = reset_loop False b parent ?c (i + 1) (iter + 1)"
    using lt by (subst reset_loop.simps) (simp add: Let_def)
  show ?case unfolding e using Suc(1) [of "iter + 1" ?c "i + 1"] Suc(2) lt
    by (auto split: prod.splits)
qed

lemma reset_loop_data:
  "iter \<le> b \<Longrightarrow> k < length (data child) \<Longrightarrow>
   data (fst (reset_loop False b parent child i iter)) ! k =
     (if i \<le> k \<and> k < i + (b - iter) then data parent ! (k + iter - i) else data child ! k)"
proof (induction "b - iter" arbitrary: child i iter)
  case 0
  then have e: "reset_loop False b parent child i iter = (child, i, iter)"
    by (subst reset_loop.simps) simp
  show ?case unfolding e using 0 by auto
next
  case (Suc d)
  then have lt: "iter < b" by simp
  let ?c = "child\<lparr>children := (children child)[i := children parent ! iter],
                  data := (data child)[i := data parent ! iter], count := count child + 1\<rparr>"
  have e: "reset_loop False b parent child i iter = reset_loop False b parent ?c (i + 1) (iter + 1)"
    using lt by (subst reset_loop.simps) (simp add: Let_def)
  have "data (fst (reset_loop False b parent ?c (i + 1) (iter + 1))) ! k =
     (if i + 1 \<le> k \<and> k < i + 1 + (b - (iter + 1)) then data parent ! (k + (iter + 1) - (i + 1))
      else data ?c ! k)"
    using Suc(1) [of "iter + 1" ?c "i + 1"] Suc(2,4) lt by simp
  then show ?case unfolding e using lt Suc(4) by (auto simp: nth_list_update)
qed

lemma reset_loop_children:
  "iter \<le> b \<Longrightarrow> k < length (children child) \<Longrightarrow>
   children (fst (reset_loop False b parent child i iter)) ! k =
     (if i \<le> k \<and> k < i + (b - iter) then children parent ! (k + iter - i) else children child ! k)"
proof (induction "b - iter" arbitrary: child i iter)
  case 0
  then have e: "reset_loop False b parent child i iter = (child, i, iter)"
    by (subst reset_loop.simps) simp
  show ?case unfolding e using 0 by auto
next
  case (Suc d)
  then have lt: "iter < b" by simp
  let ?c = "child\<lparr>children := (children child)[i := children parent ! iter],
                  data := (data child)[i := data parent ! iter], count := count child + 1\<rparr>"
  have e: "reset_loop False b parent child i iter = reset_loop False b parent ?c (i + 1) (iter + 1)"
    using lt by (subst reset_loop.simps) (simp add: Let_def)
  have "children (fst (reset_loop False b parent ?c (i + 1) (iter + 1))) ! k =
     (if i + 1 \<le> k \<and> k < i + 1 + (b - (iter + 1)) then children parent ! (k + (iter + 1) - (i + 1))
      else children ?c ! k)"
    using Suc(1) [of "iter + 1" ?c "i + 1"] Suc(2,4) lt by simp
  then show ?case unfolding e using lt Suc(4) by (auto simp: nth_list_update)
qed

lemma bound_simps: "bound LEFT = half" "bound RIGHT = ORDER + 1"
  by (simp_all add: bound_def half_def)

lemma half_le: "half \<le> ORDER" "half + half = ORDER" "0 < half"
  by (simp_all add: half_def ORDER_def)

lemma reset_children_alias:
  "reset_children True n n p 0 = (n\<lparr>count := count n + bound p\<rparr>, bound p)"
  using reset_loop_alias [of 0 "bound p" n n]
  by (simp add: reset_children_def)

lemma reset_children_copy:
  assumes "iter \<le> bound p" "bound p - iter < length (children child)"
  shows "\<exists>c. reset_children False parent child p iter = (c, bound p) \<and>
     page_id c = page_id child \<and> right c = right child \<and>
     count c = count child + (bound p - iter) \<and>
     length (data c) = length (data child) \<and> length (children c) = length (children child) \<and>
     (\<forall>k < length (data child). data c ! k =
        (if k < bound p - iter then data parent ! (k + iter) else data child ! k)) \<and>
     (\<forall>k < length (children child). children c ! k =
        (if k \<le> bound p - iter then children parent ! (k + iter) else children child ! k))"
proof -
  obtain c i it where l: "reset_loop False (bound p) parent child 0 iter = (c, i, it)"
    by (cases "reset_loop False (bound p) parent child 0 iter")
  have f: "page_id c = page_id child" "right c = right child"
    "count c = count child + (bound p - iter)"
    "length (data c) = length (data child)" "length (children c) = length (children child)"
    "i = bound p - iter" "it = bound p"
    using reset_loop_fields [where parent=parent and child=child and i=0, OF assms(1)] l by simp_all
  have d: "\<forall>k < length (data child). data c ! k =
        (if k < bound p - iter then data parent ! (k + iter) else data child ! k)"
    using reset_loop_data [where child=child and parent=parent and i=0, OF assms(1)] l by simp
  have ch: "\<forall>k < length (children child). children c ! k =
        (if k < bound p - iter then children parent ! (k + iter) else children child ! k)"
    using reset_loop_children [where child=child and parent=parent and i=0, OF assms(1)] l by simp
  let ?c = "c\<lparr>children := (children c)[i := children parent ! it]\<rparr>"
  have r: "reset_children False parent child p iter = (?c, bound p)"
    using l f(7) by (simp add: reset_children_def)
  have "\<forall>k < length (children child). children ?c ! k =
        (if k \<le> bound p - iter then children parent ! (k + iter) else children child ! k)"
    using ch f assms by (auto simp: nth_list_update)
  then show ?thesis using r f d by simp
qed

lemma nmatch_data_nth: "nmatch n p r es cs \<Longrightarrow> k < length es \<Longrightarrow> data n ! k = es ! k"
  by (metis nmatch_def nth_take)

lemma nmatch_children_nth:
  "nmatch n p r es cs \<Longrightarrow> cs \<noteq> [] \<Longrightarrow> k < length cs \<Longrightarrow> children n ! k = cs ! k"
  by (metis nmatch_def nth_take)

lemma nmatch_leaf_children:
  "nmatch n p r es [] \<Longrightarrow> k < ORDER + 2 \<Longrightarrow> children n ! k = 0"
  by (simp add: nmatch_def)

lemma nmatch_is_leaf: "nmatch n p r es cs \<Longrightarrow> is_leaf n \<longleftrightarrow> cs = []"
proof (cases "cs = []")
  case True
  assume "nmatch n p r es cs"
  with True show ?thesis by (simp add: nmatch_def is_leaf_def)
next
  case False
  assume m: "nmatch n p r es cs"
  from False obtain x xs where x: "cs = x # xs" by (cases cs) auto
  have "children n ! 0 = x" using nmatch_children_nth [OF m False, of 0] x by simp
  moreover have "x \<noteq> 0" using m x by (auto simp: nmatch_def)
  ultimately show ?thesis using False by (simp add: is_leaf_def)
qed

lemma scan_lt_takeWhile:
  "ps \<le> count n \<Longrightarrow> count n \<le> length (data n) \<Longrightarrow>
   scan_lt n v ps = ps + length (takeWhile (\<lambda>e. key_lt e v) (drop ps (take (count n) (data n))))"
proof (induction n v ps rule: scan_lt.induct)
  case (1 n v ps)
  show ?case
  proof (cases "ps < count n")
    case True
    then have d: "drop ps (take (count n) (data n)) = data n ! ps # drop (Suc ps) (take (count n) (data n))"
      using 1(3) by (metis Cons_nth_drop_Suc length_take min.absorb2 nth_take)
    show ?thesis
    proof (cases "key_lt (data n ! ps) v")
      case k: True
      have "scan_lt n v ps = scan_lt n v (ps + 1)" using True k by (subst scan_lt.simps) simp
      then show ?thesis using 1(1) [OF conjI [OF True k]] True 1(3) d k by simp
    next
      case k: False
      have "scan_lt n v ps = ps" using k by (subst scan_lt.simps) simp
      then show ?thesis using d k by simp
    qed
  next
    case False
    then have "scan_lt n v ps = ps" by (subst scan_lt.simps) simp
    then show ?thesis using False 1(2) by simp
  qed
qed

lemma scan_le_takeWhile:
  "ps \<le> count n \<Longrightarrow> count n \<le> length (data n) \<Longrightarrow>
   scan_le n v ps = ps + length (takeWhile (\<lambda>e. key_le e v) (drop ps (take (count n) (data n))))"
proof (induction n v ps rule: scan_le.induct)
  case (1 n v ps)
  show ?case
  proof (cases "ps < count n")
    case True
    then have d: "drop ps (take (count n) (data n)) = data n ! ps # drop (Suc ps) (take (count n) (data n))"
      using 1(3) by (metis Cons_nth_drop_Suc length_take min.absorb2 nth_take)
    show ?thesis
    proof (cases "key_le (data n ! ps) v")
      case k: True
      have "scan_le n v ps = scan_le n v (ps + 1)" using True k by (subst scan_le.simps) simp
      then show ?thesis using 1(1) [OF conjI [OF True k]] True 1(3) d k by simp
    next
      case k: False
      have "scan_le n v ps = ps" using k by (subst scan_le.simps) simp
      then show ?thesis using d k by simp
    qed
  next
    case False
    then have "scan_le n v ps = ps" by (subst scan_le.simps) simp
    then show ?thesis using False 1(2) by simp
  qed
qed

lemma lpos_le: "lpos v es \<le> length es"
  by (simp add: lpos_def length_takeWhile_le)

lemma lepos_le: "lepos v es \<le> length es"
  by (simp add: lepos_def length_takeWhile_le)

lemma nmatch_scan_lt: "nmatch n p r es cs \<Longrightarrow> scan_lt n v 0 = lpos v es"
  using scan_lt_takeWhile [of 0 n v] by (simp add: nmatch_def wf_node_def lpos_def)

lemma nmatch_scan_le: "nmatch n p r es cs \<Longrightarrow> scan_le n v 0 = lepos v es"
  using scan_le_takeWhile [of 0 n v] by (simp add: nmatch_def wf_node_def lepos_def)

text \<open>\<^verbatim>\<open>insert_in_node\<close> on a node that has room.\<close>

lemma nmatch_insert_leaf:
  assumes m: "nmatch n p r es []" and le: "length es \<le> ORDER" and ps: "ps \<le> length es"
  shows "nmatch (insert_in_node n ps v) p r (take ps es @ v # drop ps es) []"
proof -
  let ?n = "insert_in_node n ps v"
  from m have c: "count n = length es" and w: "length (data n) = ORDER + 1"
    "length (children n) = ORDER + 2" and ch: "\<forall>k < ORDER + 2. children n ! k = 0"
    by (simp_all add: nmatch_def wf_node_def)
  have f: "page_id ?n = p" "right ?n = r" "count ?n = length es + 1"
    "length (data ?n) = ORDER + 1" "length (children ?n) = ORDER + 2"
    using insert_in_node_fields [of n ps v] m by (simp_all add: nmatch_def wf_node_def)
  have d: "take (length es + 1) (data ?n) = take ps es @ v # drop ps es"
  proof (rule nth_equalityI)
    show "length (take (length es + 1) (data ?n)) = length (take ps es @ v # drop ps es)"
      using f le ps by simp
  next
    fix i assume "i < length (take (length es + 1) (data ?n))"
    then have i: "i < length es + 1" by simp
    then have "data ?n ! i = (if i = ps then v else if ps < i \<and> i \<le> count n then data n ! (i - 1) else data n ! i)"
      using insert_in_node_data [of ps n i v] c w le ps by simp
    then show "take (length es + 1) (data ?n) ! i = (take ps es @ v # drop ps es) ! i"
      using i ps c nmatch_data_nth [OF m] by (auto simp: nth_append nth_Cons')
  qed
  have "children ?n ! i = 0" if i: "i < ORDER + 2" for i
  proof -
    have "children ?n ! i =
       (if i = ps + 1 then children n ! ps
        else if ps + 1 < i \<and> i \<le> count n + 1 then children n ! (i - 1) else children n ! i)"
      using insert_in_node_children [of ps n i v] c w le ps i by simp
    moreover have "children n ! ps = 0" "children n ! (i - 1) = 0" "children n ! i = 0"
      using ch i ps le by simp_all
    ultimately show ?thesis by simp
  qed
  then show ?thesis using f d le ps by (simp add: nmatch_def wf_node_def)
qed

lemma nmatch_insert_inner:
  assumes m: "nmatch n p r es cs" and ne: "cs \<noteq> []" and le: "length es \<le> ORDER"
    and ps: "ps \<le> length es" and l: "l \<noteq> 0" and q: "q \<noteq> 0"
  shows "nmatch ((insert_in_node n ps v)\<lparr>children :=
            (children (insert_in_node n ps v))[ps := l, ps + 1 := q]\<rparr>) p r
          (take ps es @ v # drop ps es) (take ps cs @ l # q # drop (ps + 1) cs)"
proof -
  let ?n = "insert_in_node n ps v"
  let ?m = "?n\<lparr>children := (children ?n)[ps := l, ps + 1 := q]\<rparr>"
  from m ne have c: "count n = length es" and w: "length (data n) = ORDER + 1"
    "length (children n) = ORDER + 2" and lc: "length cs = length es + 1" and z: "0 \<notin> set cs"
    by (simp_all add: nmatch_def wf_node_def)
  have f: "page_id ?n = p" "right ?n = r" "count ?n = length es + 1"
    "length (data ?n) = ORDER + 1" "length (children ?n) = ORDER + 2"
    using insert_in_node_fields [of n ps v] m by (simp_all add: nmatch_def wf_node_def)
  have d: "take (length es + 1) (data ?n) = take ps es @ v # drop ps es"
  proof (rule nth_equalityI)
    show "length (take (length es + 1) (data ?n)) = length (take ps es @ v # drop ps es)"
      using f le ps by simp
  next
    fix i assume "i < length (take (length es + 1) (data ?n))"
    then have i: "i < length es + 1" by simp
    then have "data ?n ! i = (if i = ps then v else if ps < i \<and> i \<le> count n then data n ! (i - 1) else data n ! i)"
      using insert_in_node_data [of ps n i v] c w le ps by simp
    then show "take (length es + 1) (data ?n) ! i = (take ps es @ v # drop ps es) ! i"
      using i ps c nmatch_data_nth [OF m] by (auto simp: nth_append nth_Cons')
  qed
  let ?cs = "take ps cs @ l # q # drop (ps + 1) cs"
  have lcs: "length ?cs = length es + 2" using lc ps by simp
  have "take (length ?cs) (children ?m) = ?cs"
  proof (rule nth_equalityI)
    show "length (take (length ?cs) (children ?m)) = length ?cs"
      using f le lcs by simp
  next
    fix i assume "i < length (take (length ?cs) (children ?m))"
    then have i: "i < length es + 2" using lcs by simp
    then have "children ?n ! i =
       (if i = ps + 1 then children n ! ps
        else if ps + 1 < i \<and> i \<le> count n + 1 then children n ! (i - 1) else children n ! i)"
      using insert_in_node_children [of ps n i v] c w le ps by simp
    moreover have "\<And>k. k < length cs \<Longrightarrow> children n ! k = cs ! k"
      using nmatch_children_nth [OF m ne] by simp
    moreover have "Suc (i - 2) = i - Suc 0" if "\<not> i \<le> Suc ps" using that by arith
    ultimately show "take (length ?cs) (children ?m) ! i = ?cs ! i"
      using i ps c lc f le lcs
      by (auto simp: nth_append nth_Cons' nth_list_update min_def)
  qed
  moreover have "0 \<notin> set ?cs" using z l q by (auto dest: in_set_takeD in_set_dropD)
  ultimately show ?thesis using f d le ps lcs by (simp add: nmatch_def wf_node_def)
qed

lemma nmatch_full:
  assumes "nmatch n p r es cs" "length es = ORDER + 1"
  shows "data n = es" "cs \<noteq> [] \<Longrightarrow> children n = cs"
proof -
  from assms have "take (ORDER + 1) (data n) = es" "length (data n) = ORDER + 1"
    by (auto simp: nmatch_def wf_node_def)
  then show "data n = es" by simp
  assume "cs \<noteq> []"
  with assms have "take (ORDER + 2) (children n) = cs" "length (children n) = ORDER + 2"
    by (auto simp: nmatch_def wf_node_def)
  then show "children n = cs" by simp
qed

lemma wf_node_Node: "wf_node (Node u q)"
  by (simp add: wf_node_def Node_def)

lemma Node_fields:
  "page_id (Node u q) = q" "count (Node u q) = 0" "right (Node u q) = 0"
  by (simp_all add: Node_def)

lemma Node_children: "k < ORDER + 2 \<Longrightarrow> children (Node u q) ! k = 0"
  by (simp only: Node_def node.select_convs nth_replicate)

text \<open>Copying the upper part of an overflowed node into a fresh one.\<close>

lemma copy_leaf:
  assumes par: "wf_node parent" "\<forall>k < ORDER + 2. children parent ! k = 0"
    and ch: "wf_node child" "count child = 0" "\<forall>k < ORDER + 2. children child ! k = 0"
    and it: "iter \<le> bound p" "bound p \<le> ORDER + 1"
  shows "\<exists>c. reset_children False parent child p iter = (c, bound p) \<and>
     nmatch c (page_id child) (right child) (take (bound p - iter) (drop iter (data parent))) []"
proof -
  have "bound p - iter < length (children child)" using ch it by (simp add: wf_node_def)
  from reset_children_copy [OF it(1) this, of parent]
  obtain c where c: "reset_children False parent child p iter = (c, bound p)"
    "page_id c = page_id child" "right c = right child"
    "count c = count child + (bound p - iter)"
    "length (data c) = length (data child)" "length (children c) = length (children child)"
    "\<forall>k < length (data child). data c ! k =
        (if k < bound p - iter then data parent ! (k + iter) else data child ! k)"
    "\<forall>k < length (children child). children c ! k =
        (if k \<le> bound p - iter then children parent ! (k + iter) else children child ! k)"
    by blast
  let ?es = "take (bound p - iter) (drop iter (data parent))"
  have le: "length ?es = bound p - iter" using par it by (simp add: wf_node_def)
  have d: "take (length ?es) (data c) = ?es"
  proof (rule nth_equalityI)
    show "length (take (length ?es) (data c)) = length ?es"
      using le c(5) ch it by (simp add: wf_node_def)
  next
    fix i assume "i < length (take (length ?es) (data c))"
    then have i: "i < bound p - iter" using le by simp
    then have "i < length (data child)" using ch it by (simp add: wf_node_def)
    then have "data c ! i = data parent ! (i + iter)" using c(7) i by simp
    then show "take (length ?es) (data c) ! i = ?es ! i"
      using i le par it by (simp add: wf_node_def add.commute)
  qed
  have z: "\<forall>k < ORDER + 2. children c ! k = 0"
  proof (intro allI impI)
    fix k assume k: "k < ORDER + 2"
    then have "children c ! k =
        (if k \<le> bound p - iter then children parent ! (k + iter) else children child ! k)"
      using c(8) ch by (simp add: wf_node_def)
    moreover have "k \<le> bound p - iter \<Longrightarrow> k + iter < ORDER + 2" using it by simp
    ultimately show "children c ! k = 0" using par(2) ch(3) k by auto
  qed
  have "nmatch c (page_id child) (right child) ?es []"
    using c(2-6) ch le d z it by (auto simp: nmatch_def wf_node_def)
  then show ?thesis using c(1) by blast
qed

lemma copy_inner:
  assumes par: "wf_node parent"
    and ch: "wf_node child" "count child = 0"
    and it: "iter \<le> bound p" "bound p \<le> ORDER + 1"
    and z: "0 \<notin> set (take (bound p - iter + 1) (drop iter (children parent)))"
  shows "\<exists>c. reset_children False parent child p iter = (c, bound p) \<and>
     nmatch c (page_id child) (right child) (take (bound p - iter) (drop iter (data parent)))
       (take (bound p - iter + 1) (drop iter (children parent)))"
proof -
  have "bound p - iter < length (children child)" using ch it by (simp add: wf_node_def)
  from reset_children_copy [OF it(1) this, of parent]
  obtain c where c: "reset_children False parent child p iter = (c, bound p)"
    "page_id c = page_id child" "right c = right child"
    "count c = count child + (bound p - iter)"
    "length (data c) = length (data child)" "length (children c) = length (children child)"
    "\<forall>k < length (data child). data c ! k =
        (if k < bound p - iter then data parent ! (k + iter) else data child ! k)"
    "\<forall>k < length (children child). children c ! k =
        (if k \<le> bound p - iter then children parent ! (k + iter) else children child ! k)"
    by blast
  let ?es = "take (bound p - iter) (drop iter (data parent))"
  let ?cs = "take (bound p - iter + 1) (drop iter (children parent))"
  have le: "length ?es = bound p - iter" using par it by (simp add: wf_node_def)
  have lc: "length ?cs = bound p - iter + 1" using par it by (simp add: wf_node_def)
  have d: "take (length ?es) (data c) = ?es"
  proof (rule nth_equalityI)
    show "length (take (length ?es) (data c)) = length ?es"
      using le c(5) ch it by (simp add: wf_node_def)
  next
    fix i assume "i < length (take (length ?es) (data c))"
    then have i: "i < bound p - iter" using le by simp
    then have "i < length (data child)" using ch it by (simp add: wf_node_def)
    then have "data c ! i = data parent ! (i + iter)" using c(7) i by simp
    then show "take (length ?es) (data c) ! i = ?es ! i"
      using i le par it by (simp add: wf_node_def add.commute)
  qed
  have k: "take (length ?cs) (children c) = ?cs"
  proof (rule nth_equalityI)
    show "length (take (length ?cs) (children c)) = length ?cs"
      using lc c(6) ch it by (simp add: wf_node_def)
  next
    fix i assume "i < length (take (length ?cs) (children c))"
    then have i: "i < bound p - iter + 1" using lc by simp
    then have "i < length (children child)" using ch it by (simp add: wf_node_def)
    then have "children c ! i = children parent ! (i + iter)" using c(8) i by simp
    then show "take (length ?cs) (children c) ! i = ?cs ! i"
      using i lc par it by (simp add: wf_node_def add.commute)
  qed
  have b: "bound p - iter \<le> Suc ORDER" using it by simp
  have "?cs \<noteq> []" using lc by auto
  then have "nmatch c (page_id child) (right child) ?es ?cs"
    using c(2-6) ch le lc d k z b unfolding nmatch_def wf_node_def by simp
  then show ?thesis using c(1) by blast
qed

lemma list_update_twice:
  "xs[Suc ps := q, ps := l, Suc ps := q] = xs[ps := l, Suc ps := q]"
  by (simp add: list_update_swap [of "Suc ps" ps])

lemma write3:
  fixes R L P H :: "'k page"
  assumes "int (length pg) = h" "0 < p" "nat p < length pg" "0 < cp" "nat cp < length pg" "cp \<noteq> p"
  defines "pg' \<equiv> save PBlank h R (save PBlank cp L (save PBlank p P (save PBlank 0 H pg)))"
  shows "length pg' = length pg + 1" "pg' ! nat p = P" "pg' ! nat cp = L" "pg' ! length pg = R"
    "\<And>k. 0 < k \<Longrightarrow> k < length pg \<Longrightarrow> k \<noteq> nat p \<Longrightarrow> k \<noteq> nat cp \<Longrightarrow> pg' ! k = pg ! k"
proof -
  let ?a = "save PBlank 0 H pg"
  let ?b = "save PBlank p P ?a"
  let ?c = "save PBlank cp L ?b"
  have h: "0 \<le> h" "nat h = length pg" using assms(1) by auto
  have la: "length ?a = length pg" using assms(3) by (simp add: length_save)
  have lb: "length ?b = length pg" using assms(2,3) la by (simp add: length_save)
  have lc: "length ?c = length pg" using assms(4,5) lb by (simp add: length_save)
  show "length pg' = length pg + 1" using h lc by (simp add: pg'_def length_save)
  have np: "nat p \<noteq> nat cp" "nat p \<noteq> 0" "nat cp \<noteq> 0" using assms(2,4,6) by auto
  have "?b ! nat p = P" using assms(2) by (simp add: save_nth_same)
  then have "?c ! nat p = P" using assms(3,4) lb np by (simp add: save_nth_other)
  then show "pg' ! nat p = P" using assms(3) h lc by (simp add: pg'_def save_nth_other)
  have "?c ! nat cp = L" using assms(4) by (simp add: save_nth_same)
  then show "pg' ! nat cp = L" using assms(5) h lc by (simp add: pg'_def save_nth_other)
  show "pg' ! length pg = R" using save_nth_same [of h PBlank R ?c] h by (simp add: pg'_def)
  fix k assume k: "0 < k" "k < length pg" "k \<noteq> nat p" "k \<noteq> nat cp"
  have "?a ! k = pg ! k" using k by (simp add: save_nth_other)
  then have "?b ! k = pg ! k" using k la assms(2) by (simp add: save_nth_other)
  then have "?c ! k = pg ! k" using k lb assms(4) by (simp add: save_nth_other)
  then show "pg' ! k = pg ! k" using k lc h by (simp add: pg'_def save_nth_other)
qed

lemma write3_root:
  fixes R L P H1 H2 :: "'k page"
  assumes "int (length pg) = h" "0 < p" "nat p < length pg"
  defines "pg' \<equiv> save PBlank (h + 1) R (save PBlank h L (save PBlank p P
                    (save PBlank 0 H2 (save PBlank 0 H1 pg))))"
  shows "length pg' = length pg + 2" "pg' ! nat p = P" "pg' ! length pg = L"
    "pg' ! (length pg + 1) = R"
    "\<And>k. 0 < k \<Longrightarrow> k < length pg \<Longrightarrow> k \<noteq> nat p \<Longrightarrow> pg' ! k = pg ! k"
proof -
  let ?z = "save PBlank 0 H1 pg"
  let ?a = "save PBlank 0 H2 ?z"
  let ?b = "save PBlank p P ?a"
  let ?c = "save PBlank h L ?b"
  have h: "0 \<le> h" "nat h = length pg" "nat (h + 1) = length pg + 1" using assms(1) by auto
  have la0: "length ?z = length pg" using assms(3) by (simp add: length_save)
  have la: "length ?a = length pg" using assms(3) la0 by (simp add: length_save)
  have lb: "length ?b = length pg" using assms(2,3) la by (simp add: length_save)
  have lc: "length ?c = length pg + 1" using h lb by (simp add: length_save)
  show "length pg' = length pg + 2" using h lc by (simp add: pg'_def length_save)
  have "?b ! nat p = P" using assms(2) by (simp add: save_nth_same)
  then have "?c ! nat p = P" using assms(3) h lb by (simp add: save_nth_other)
  then show "pg' ! nat p = P" using assms(3) h lc by (simp add: pg'_def save_nth_other)
  have "?c ! length pg = L" using save_nth_same [of h PBlank L ?b] h by simp
  then show "pg' ! length pg = L" using h lc by (simp add: pg'_def save_nth_other)
  show "pg' ! (length pg + 1) = R" using save_nth_same [of "h + 1" PBlank R ?c] h by (simp add: pg'_def)
  fix k assume k: "0 < k" "k < length pg" "k \<noteq> nat p"
  have "?z ! k = pg ! k" using k by (simp add: save_nth_other)
  moreover have "?a ! k = ?z ! k" using save_nth_other [of 0 k ?z PBlank H2] k la0 by simp
  ultimately have "?a ! k = pg ! k" by simp
  then have "?b ! k = pg ! k" using k la assms(2) by (simp add: save_nth_other)
  then have "?c ! k = pg ! k" using k lb h by (simp add: save_nth_other)
  then show "pg' ! k = pg ! k" using k lc h by (simp add: pg'_def save_nth_other)
qed

lemma split_child_spec:
  fixes t :: "'k bptree"
  assumes pn: "nmatch n p r es cs" "cs \<noteq> []" "length es \<le> ORDER" "ps \<le> length es"
    and st: "int (length (pager t)) = hcount t + 1" "0 < p" "nat p < length (pager t)"
    and c: "cs ! ps = cp" "0 < cp" "nat cp < length (pager t)" "cp \<noteq> p"
      "pager t ! nat cp = PNode nc"
    and nc: "nmatch nc cp cr ces ccs" "length ces = ORDER + 1"
  shows "\<exists>t' P L R. split_child u t n ps = Some (t', P) \<and> count P = length es + 1 \<and>
      hcount t' = hcount t + 1 \<and> root_id t' = root_id t \<and>
      length (pager t') = length (pager t) + 1 \<and>
      pager t' ! nat p = PNode P \<and> pager t' ! nat cp = PNode L \<and>
      pager t' ! length (pager t) = PNode R \<and>
      (\<forall>k. 0 < k \<and> k < length (pager t) \<and> k \<noteq> nat p \<and> k \<noteq> nat cp \<longrightarrow>
           pager t' ! k = pager t ! k) \<and>
      nmatch P p r (take ps es @ ces ! half # drop ps es)
        (take ps cs @ cp # (hcount t + 1) # drop (ps + 1) cs) \<and>
      (if ccs = [] then nmatch L cp (hcount t + 1) (take half ces) [] \<and>
                        nmatch R (hcount t + 1) cr (drop half ces) []
       else nmatch L cp cr (take half ces) (take (half + 1) ccs) \<and>
            nmatch R (hcount t + 1) 0 (drop (half + 1) ces) (drop (half + 1) ccs))"
proof -
  let ?h = "hcount t + 1"
  let ?H = "PHeader (root_id t) ?h :: 'k page"
  have lcs: "length cs = length es + 1" using pn(1,2) by (simp add: nmatch_def)
  have chps: "children n ! ps = cp"
    using nmatch_children_nth [OF pn(1,2), of ps] lcs pn(4) c(1) by simp
  have rd: "read_node u t (children n ! ps) = Some nc"
    using c chps by (simp add: read_node_def recover_def)
  define t1 where "t1 = t\<lparr>hcount := ?h, pager := save PBlank 0 ?H (pager t)\<rparr>"
  have nn: "new_node u t = (Node u ?h, t1)"
    by (simp add: new_node_def Let_def t1_def save_header_def)
  define left1 where "left1 = nc\<lparr>count := half\<rparr>"
  have rl: "reset_children True (nc\<lparr>count := 0\<rparr>) (nc\<lparr>count := 0\<rparr>) LEFT 0 = (left1, half)"
    using reset_children_alias [of "nc\<lparr>count := 0\<rparr>" LEFT] by (simp add: bound_simps left1_def)
  have dnc: "data nc = ces" using nmatch_full(1) [OF nc] .
  have dl: "data left1 = ces" using dnc by (simp add: left1_def)
  have wnc: "wf_node nc" "page_id nc = cp" "right nc = cr" using nc(1) by (simp_all add: nmatch_def)
  have hl: "half \<le> ORDER" "half < length ces" using half_le nc(2) by simp_all
  define n1 where "n1 = insert_in_node n ps (ces ! half)"
  define P where "P = n1\<lparr>children := (children n1)[ps := cp, ps + 1 := ?h]\<rparr>"
  have hpos: "?h \<noteq> 0" "cp \<noteq> 0" using st(1,3) c(2) by auto
  have mP: "nmatch P p r (take ps es @ ces ! half # drop ps es)
        (take ps cs @ cp # ?h # drop (ps + 1) cs)"
    unfolding P_def n1_def using nmatch_insert_inner [OF pn c(2) [THEN less_imp_neq [THEN not_sym]] hpos(1)]
    by simp
  have cP: "count P = length es + 1" "page_id P = p"
    using mP pn(4) by (simp_all add: nmatch_def)
  have lf: "is_leaf left1 \<longleftrightarrow> ccs = []"
    using nmatch_is_leaf [OF nc(1)] by (simp add: is_leaf_def left1_def)
  show ?thesis
  proof (cases "ccs = []")
    case True
    define right1 where "right1 = (Node u ?h)\<lparr>right := cr\<rparr>"
    define left2 where "left2 = left1\<lparr>right := ?h\<rparr>"
    have z: "\<forall>k < ORDER + 2. children nc ! k = 0" using nc(1) True by (simp add: nmatch_def)
    have "\<exists>R. reset_children False left2 right1 RIGHT half = (R, bound RIGHT) \<and>
      nmatch R (page_id right1) (right right1) (take (bound RIGHT - half) (drop half (data left2))) []"
      apply (rule copy_leaf)
      using wnc z hl wf_node_Node [of u ?h] Node_children [of _ u ?h]
      by (simp_all add: left2_def left1_def right1_def wf_node_def Node_fields bound_simps)
    then obtain R where R: "reset_children False left2 right1 RIGHT half = (R, ORDER + 1)"
      "nmatch R ?h cr (drop half ces) []"
      using dnc nc(2) by (auto simp: bound_simps left2_def left1_def right1_def Node_fields)
    have mL: "nmatch left2 cp ?h (take half ces) []"
      using nc(1) True hl dnc by (simp add: nmatch_def left2_def left1_def wf_node_def min_def)
    define t' where "t' = t1\<lparr>pager := save PBlank ?h (PNode R) (save PBlank cp (PNode left2)
                (save PBlank p (PNode P) (pager t1)))\<rparr>"
    have pR: "page_id R = ?h" using R(2) by (simp add: nmatch_def)
    have f: "right left1 = cr" "page_id right1 = ?h" "page_id left2 = cp" "page_id n1 = p"
      "page_id left1 = cp"
      using wnc pn(1) insert_in_node_fields [of n ps "ces ! half"]
      by (simp_all add: left1_def right1_def left2_def n1_def Node_fields nmatch_def)
    have sc: "split_child u t n ps = Some (t', P)"
      unfolding split_child_def rd
      by (simp add: Let_def nn rl dl n1_def [symmetric] lf True f right1_def [symmetric]
          left2_def [symmetric] R(1) write_these_nodes_def write_node_def pR list_update_twice
          t'_def P_def)
    have pg: "pager t' = save PBlank ?h (PNode R) (save PBlank cp (PNode left2)
                (save PBlank p (PNode P) (save PBlank 0 ?H (pager t))))"
      by (simp add: t'_def t1_def)
    note w = write3 [where R="PNode R" and L="PNode left2" and P="PNode P" and H="?H",
        OF st(1) st(2,3) c(2,3,4)]
    show ?thesis
      apply (rule exI [of _ t'], rule exI [of _ P], rule exI [of _ left2], rule exI [of _ R])
      using sc cP mP mL R(2) True w unfolding pg [symmetric]
      by (simp add: t'_def t1_def)
  next
    case False
    have kc: "children nc = ccs" "length ccs = ORDER + 2" "0 \<notin> set ccs"
      using nmatch_full(2) [OF nc False] nc False by (simp_all add: nmatch_def)
    have "\<exists>R. reset_children False left1 (Node u ?h) RIGHT (half + 1) = (R, bound RIGHT) \<and>
      nmatch R (page_id (Node u ?h)) (right (Node u ?h))
        (take (bound RIGHT - (half + 1)) (drop (half + 1) (data left1)))
        (take (bound RIGHT - (half + 1) + 1) (drop (half + 1) (children left1)))"
      apply (rule copy_inner)
      using wnc hl kc wf_node_Node [of u ?h]
      by (auto simp: left1_def wf_node_def Node_fields bound_simps
          dest: in_set_takeD in_set_dropD)
    note ex = this [unfolded bound_simps Node_fields]
    have e1: "take (ORDER + 1 - (half + 1)) (drop (half + 1) (data left1)) = drop (half + 1) ces"
      using nc(2) by (simp add: dl)
    have kl: "children left1 = ccs" using kc(1) by (simp add: left1_def)
    have e2: "take (ORDER + 1 - (half + 1) + 1) (drop (half + 1) (children left1)) = drop (half + 1) ccs"
      using kc(2) by (simp add: kl)
    from ex [unfolded e1 e2]
    obtain R where R: "reset_children False left1 (Node u ?h) RIGHT (half + 1) = (R, ORDER + 1)"
      "nmatch R ?h 0 (drop (half + 1) ces) (drop (half + 1) ccs)"
      by blast
    have l1: "length (take half ces) = half" using hl by simp
    have l2: "length (take (half + 1) ccs) = half + 1" using kc(2) hl by simp
    have ne: "take (half + 1) ccs \<noteq> []" using l2 by auto
    have zz: "0 \<notin> set (take (half + 1) ccs)" using kc(3) by (auto dest: in_set_takeD)
    have mL: "nmatch left1 cp cr (take half ces) (take (half + 1) ccs)"
      unfolding nmatch_def l1 l2 using ne zz wnc hl dl kl
      by (simp add: left1_def wf_node_def)
    define t' where "t' = t1\<lparr>pager := save PBlank ?h (PNode R) (save PBlank cp (PNode left1)
                (save PBlank p (PNode P) (pager t1)))\<rparr>"
    have pR: "page_id R = ?h" using R(2) by (simp add: nmatch_def)
    have f: "page_id left1 = cp" "page_id n1 = p"
      using wnc pn(1) insert_in_node_fields [of n ps "ces ! half"]
      by (simp_all add: left1_def n1_def nmatch_def)
    have R': "reset_children False left1 (Node u ?h) RIGHT (Suc half) = (R, ORDER + 1)"
      using R(1) by simp
    have sc: "split_child u t n ps = Some (t', P)"
      unfolding split_child_def rd
      by (simp add: Let_def nn rl dl n1_def [symmetric] lf False f
          R' write_these_nodes_def write_node_def pR t'_def P_def)
    have pg: "pager t' = save PBlank ?h (PNode R) (save PBlank cp (PNode left1)
                (save PBlank p (PNode P) (save PBlank 0 ?H (pager t))))"
      by (simp add: t'_def t1_def)
    note w = write3 [where R="PNode R" and L="PNode left1" and P="PNode P" and H="?H",
        OF st(1) st(2,3) c(2,3,4)]
    show ?thesis
      apply (rule exI [of _ t'], rule exI [of _ P], rule exI [of _ left1], rule exI [of _ R])
      using sc cP mP mL R(2) False w unfolding pg [symmetric]
      by (simp add: t'_def t1_def)
  qed
qed

lemma nmatch_right_update: "nmatch n p r es cs \<Longrightarrow> nmatch (n\<lparr>right := r'\<rparr>) p r' es cs"
  by (auto simp: nmatch_def wf_node_def split: if_splits)

lemma take1_update: "0 < length xs \<Longrightarrow> take (Suc 0) (xs[0 := x]) = [x]"
  by (cases xs) auto

lemma take2_update:
  "2 \<le> length xs \<Longrightarrow> take (Suc (Suc 0)) (xs[0 := a, Suc 0 := b]) = [a, b]"
proof (cases xs)
  case Nil
  assume "2 \<le> length xs"
  with Nil show ?thesis by simp
next
  case (Cons y ys)
  assume "2 \<le> length xs"
  with Cons show ?thesis by (cases ys) (auto simp: numeral_2_eq_2)
qed

lemma split_root_spec:
  fixes t :: "'k bptree"
  assumes st: "int (length (pager t)) = hcount t + 1" "0 < p" "nat p < length (pager t)"
      "root_id t = p" "pager t ! nat p = PNode nc"
    and nc: "nmatch nc p r ces ccs" "length ces = ORDER + 1"
  shows "\<exists>t' P L R. split_root u t = Some t' \<and>
      hcount t' = hcount t + 2 \<and> root_id t' = root_id t \<and>
      length (pager t') = length (pager t) + 2 \<and>
      pager t' ! nat p = PNode P \<and> pager t' ! length (pager t) = PNode L \<and>
      pager t' ! (length (pager t) + 1) = PNode R \<and>
      (\<forall>k. 0 < k \<and> k < length (pager t) \<and> k \<noteq> nat p \<longrightarrow> pager t' ! k = pager t ! k) \<and>
      nmatch P p r [ces ! half] [hcount t + 1, hcount t + 2] \<and>
      (if ccs = [] then nmatch L (hcount t + 1) (hcount t + 2) (take half ces) [] \<and>
                        nmatch R (hcount t + 2) 0 (drop half ces) []
       else nmatch L (hcount t + 1) (hcount t + 2) (take half ces) (take (half + 1) ccs) \<and>
            nmatch R (hcount t + 2) 0 (drop (half + 1) ces) (drop (half + 1) ccs))"
proof -
  let ?h1 = "hcount t + 1"
  let ?h2 = "hcount t + 2"
  let ?H1 = "PHeader p ?h1 :: 'k page"
  let ?H2 = "PHeader p ?h2 :: 'k page"
  have rd: "read_node u t (root_id t) = Some nc"
    using st by (simp add: read_node_def recover_def)
  define t1 where "t1 = t\<lparr>hcount := ?h1, pager := save PBlank 0 ?H1 (pager t)\<rparr>"
  define t2 where "t2 = t\<lparr>hcount := ?h2, pager := save PBlank 0 ?H2 (save PBlank 0 ?H1 (pager t))\<rparr>"
  have nn1: "new_node u t = (Node u ?h1, t1)"
    using st(4) by (simp add: new_node_def Let_def t1_def save_header_def)
  have nn2: "new_node u t1 = (Node u ?h2, t2)"
    using st(4) by (simp add: new_node_def Let_def t1_def t2_def save_header_def add.commute)
  have dnc: "data nc = ces" using nmatch_full(1) [OF nc] .
  have wnc: "wf_node nc" "page_id nc = p" "right nc = r" using nc(1) by (simp_all add: nmatch_def)
  have hl: "half \<le> ORDER" "half < length ces" "0 < half" using half_le nc(2) by simp_all
  define ov1 where "ov1 = nc\<lparr>data := (data nc)[0 := data nc ! half]\<rparr>"
  have ov: "wf_node ov1" "data ov1 = ces[0 := ces ! half]" "children ov1 = children nc"
    "page_id ov1 = p" "right ov1 = r"
    using wnc dnc by (simp_all add: ov1_def wf_node_def)
  have lf: "is_leaf ov1 \<longleftrightarrow> ccs = []"
    using nmatch_is_leaf [OF nc(1)] by (simp add: is_leaf_def ov1_def)
  define P where "P = ov1\<lparr>count := 1, children := (children ov1)[0 := ?h1, Suc 0 := ?h2]\<rparr>"
  have hp: "?h1 \<noteq> 0" "?h2 \<noteq> 0" using st(1,3) by auto
  have tk: "take (Suc 0) (data P) = [ces ! half]" "take (Suc (Suc 0)) (children P) = [?h1, ?h2]"
    using ov(1,2) hl take1_update [of ces "ces ! half"]
      take2_update [of "children ov1" ?h1 ?h2]
    by (simp_all add: P_def wf_node_def)
  have mP: "nmatch P p r [ces ! half] [?h1, ?h2]"
    unfolding nmatch_def using ov hp tk
    by (simp add: P_def wf_node_def)
  have wN: "wf_node (Node u ?h1)" "wf_node (Node u ?h2)" by (rule wf_node_Node)+
  have zN: "\<forall>k < ORDER + 2. children (Node u ?h1) ! k = 0" "\<forall>k < ORDER + 2. children (Node u ?h2) ! k = 0"
    by (simp_all add: Node_children)
  have d1: "drop half (data ov1) = drop half ces" "drop (half + 1) (data ov1) = drop (half + 1) ces"
    using hl ov(2) by simp_all
  have hb: "0 \<le> bound LEFT" "bound LEFT \<le> ORDER + 1" "half \<le> bound RIGHT" "half + 1 \<le> bound RIGHT"
    "bound RIGHT \<le> ORDER + 1"
    using hl by (simp_all add: bound_simps)
  show ?thesis
  proof (cases "ccs = []")
    case True
    have z: "\<forall>k < ORDER + 2. children nc ! k = 0" using nc(1) True by (simp add: nmatch_def)
    from copy_leaf [OF wnc(1) z wN(1) Node_fields(2) zN(1) hb(1,2), unfolded Node_fields bound_simps]
    obtain L0 where L0: "reset_children False nc (Node u ?h1) LEFT 0 = (L0, half)"
      "nmatch L0 ?h1 0 (take half ces) []" using dnc by auto
    define L where "L = L0\<lparr>right := ?h2\<rparr>"
    have mL: "nmatch L ?h1 ?h2 (take half ces) []"
      unfolding L_def using L0(2) by (rule nmatch_right_update)
    have z1: "\<forall>k < ORDER + 2. children ov1 ! k = 0" using z ov(3) by simp
    from copy_leaf [OF ov(1) z1 wN(2) Node_fields(2) zN(2) hb(3,5), unfolded Node_fields bound_simps d1]
    obtain R where R: "reset_children False ov1 (Node u ?h2) RIGHT half = (R, ORDER + 1)"
      "nmatch R ?h2 0 (drop half ces) []" using nc(2) by auto
    define t' where "t' = t2\<lparr>pager := save PBlank ?h2 (PNode R) (save PBlank ?h1 (PNode L)
                (save PBlank p (PNode P) (pager t2)))\<rparr>"
    have f: "page_id R = ?h2" "page_id L0 = ?h1"
      using R(2) L0(2) by (simp_all add: nmatch_def)
    have sr: "split_root u t = Some t'"
      unfolding split_root_def rd
      by (simp add: Let_def nn1 nn2 L0(1) ov1_def [symmetric] lf True R(1) Node_fields
          L_def [symmetric] write_these_nodes_def write_node_def f ov wnc t'_def P_def)
    have pg: "pager t' = save PBlank (?h1 + 1) (PNode R) (save PBlank ?h1 (PNode L)
                (save PBlank p (PNode P) (save PBlank 0 ?H2 (save PBlank 0 ?H1 (pager t)))))"
      by (simp add: t'_def t2_def add.commute)
    note w = write3_root [where R="PNode R" and L="PNode L" and P="PNode P" and ?H1.0="?H1"
        and ?H2.0="?H2", OF st(1) st(2,3)]
    show ?thesis
      apply (rule exI [of _ t'], rule exI [of _ P], rule exI [of _ L], rule exI [of _ R])
      using sr mP mL R(2) True w unfolding pg [symmetric]
      by (simp add: t'_def t2_def)
  next
    case False
    have kc: "children nc = ccs" "length ccs = ORDER + 2" "0 \<notin> set ccs"
      using nmatch_full(2) [OF nc False] nc False by (simp_all add: nmatch_def)
    have z0: "0 \<notin> set (take (bound LEFT - 0 + 1) (drop 0 (children nc)))"
      using kc by (auto dest: in_set_takeD)
    from copy_inner [OF wnc(1) wN(1) Node_fields(2) hb(1,2) z0, unfolded Node_fields bound_simps]
    obtain L0 where L0: "reset_children False nc (Node u ?h1) LEFT 0 = (L0, half)"
      "nmatch L0 ?h1 0 (take half ces) (take (half + 1) ccs)" using dnc kc by auto
    define L where "L = L0\<lparr>right := ?h2\<rparr>"
    have mL: "nmatch L ?h1 ?h2 (take half ces) (take (half + 1) ccs)"
      unfolding L_def using L0(2) by (rule nmatch_right_update)
    have z1: "0 \<notin> set (take (bound RIGHT - (half + 1) + 1) (drop (half + 1) (children ov1)))"
      using kc ov(3) by (auto dest: in_set_takeD in_set_dropD)
    have e1: "take (ORDER + 1 - (half + 1)) (drop (half + 1) ces) = drop (half + 1) ces"
      using nc(2) by simp
    have e2: "take (ORDER + 1 - (half + 1) + 1) (drop (half + 1) (children ov1)) = drop (half + 1) ccs"
      using kc(2) by (simp add: ov(3) kc(1))
    from copy_inner [OF ov(1) wN(2) Node_fields(2) hb(4,5) z1, unfolded Node_fields bound_simps d1 e1 e2]
    obtain R where R: "reset_children False ov1 (Node u ?h2) RIGHT (half + 1) = (R, ORDER + 1)"
      "nmatch R ?h2 0 (drop (half + 1) ces) (drop (half + 1) ccs)" by blast
    have R': "reset_children False ov1 (Node u ?h2) RIGHT (Suc half) = (R, ORDER + 1)"
      using R(1) by simp
    define t' where "t' = t2\<lparr>pager := save PBlank ?h2 (PNode R) (save PBlank ?h1 (PNode L)
                (save PBlank p (PNode P) (pager t2)))\<rparr>"
    have f: "page_id R = ?h2" "page_id L0 = ?h1"
      using R(2) L0(2) by (simp_all add: nmatch_def)
    have sr: "split_root u t = Some t'"
      unfolding split_root_def rd
      by (simp add: Let_def nn1 nn2 L0(1) ov1_def [symmetric] lf False R' Node_fields
          L_def [symmetric] write_these_nodes_def write_node_def f ov wnc t'_def P_def)
    have pg: "pager t' = save PBlank (?h1 + 1) (PNode R) (save PBlank ?h1 (PNode L)
                (save PBlank p (PNode P) (save PBlank 0 ?H2 (save PBlank 0 ?H1 (pager t)))))"
      by (simp add: t'_def t2_def add.commute)
    note w = write3_root [where R="PNode R" and L="PNode L" and P="PNode P" and ?H1.0="?H1"
        and ?H2.0="?H2", OF st(1) st(2,3)]
    show ?thesis
      apply (rule exI [of _ t'], rule exI [of _ P], rule exI [of _ L], rule exI [of _ R])
      using sr mP mL R(2) False w unfolding pg [symmetric]
      by (simp add: t'_def t2_def)
  qed
qed

subsection \<open>Page ids\<close>

lemma apid_hd_pids: "apid a \<in> set (pids a)"
  by (cases a) auto

lemma split_a_ids:
  assumes "split_a q c = (l, m, rt)"
  shows "apid l = apid c" "apid rt = q" "aright rt = (case c of Lf _ r _ \<Rightarrow> r | Nd _ _ _ _ \<Rightarrow> 0)"
    "set (pids l @ pids rt) = insert q (set (pids c))"
    "distinct (pids c) \<Longrightarrow> q \<notin> set (pids c) \<Longrightarrow> distinct (pids l @ pids rt)"
proof -
  show "apid l = apid c" "apid rt = q" "aright rt = (case c of Lf _ r _ \<Rightarrow> r | Nd _ _ _ _ \<Rightarrow> 0)"
    using assms by (cases c; auto)+
  show "set (pids l @ pids rt) = insert q (set (pids c))"
  proof (cases c)
    case (Lf p r es)
    with assms show ?thesis by auto
  next
    case (Nd p r es ts)
    have "concat (map pids ts) =
        concat (map pids (take (half + 1) ts)) @ concat (map pids (drop (half + 1) ts))"
      by (metis append_take_drop_id concat_append map_append)
    then have "set (concat (map pids ts)) =
        set (concat (map pids (take (half + 1) ts))) \<union> set (concat (map pids (drop (half + 1) ts)))"
      by (metis set_append)
    with Nd assms show ?thesis by auto
  qed
  assume d: "distinct (pids c)" "q \<notin> set (pids c)"
  show "distinct (pids l @ pids rt)"
  proof (cases c)
    case (Lf p r es)
    with assms d show ?thesis by auto
  next
    case (Nd p r es ts)
    define A where "A = concat (map pids (take (half + 1) ts))"
    define B where "B = concat (map pids (drop (half + 1) ts))"
    have e: "concat (map pids ts) = A @ B" unfolding A_def B_def
      by (metis append_take_drop_id concat_append map_append)
    have "distinct (p # A @ B)" "q \<notin> set (p # A @ B)" using d Nd e by auto
    then have "distinct ((p # A) @ (q # B))" by auto
    moreover have "pids l = p # A" "pids rt = q # B" using Nd assms by (auto simp: A_def B_def)
    ultimately show ?thesis by simp
  qed
qed

lemma distinct_replace:
  fixes h :: int
  assumes "distinct (p # A @ B @ C)" "\<forall>q\<in>set (p # A @ B @ C). q \<le> h" "distinct D"
    "set D \<subseteq> set B \<union> {h + 1 ..}"
  shows "distinct (p # A @ D @ C)"
proof -
  have 1: "\<And>x. x \<in> set D \<Longrightarrow> x \<in> set B \<or> h < x" using assms(4) by auto
  have 2: "\<And>x. x \<in> set A \<or> x \<in> set C \<or> x = p \<Longrightarrow> x \<le> h \<and> x \<notin> set B"
    using assms(1,2) by auto
  have "p \<notin> set D" "set A \<inter> set D = {}" "set D \<inter> set C = {}"
    using 1 2 by fastforce+
  then show ?thesis using assms(1,3) by auto
qed

lemma ains_props:
  "apid (fst (ains h v a)) = apid a \<and> aright (fst (ains h v a)) = aright a \<and>
   h \<le> snd (ains h v a) \<and>
   set (pids (fst (ains h v a))) = set (pids a) \<union> {h + 1 .. snd (ains h v a)} \<and>
   (distinct (pids a) \<and> (\<forall>q\<in>set (pids a). q \<le> h) \<longrightarrow> distinct (pids (fst (ains h v a))))"
proof (induction h v a rule: ains.induct)
  case (1 h v p r es)
  then show ?case by simp
next
  case (2 h v p r es ts)
  let ?ps = "lpos v es"
  show ?case
  proof (cases "?ps < length ts")
    case False
    then show ?thesis by simp
  next
    case True
    obtain c h1 where c: "ains h v (ts ! ?ps) = (c, h1)" by (cases "ains h v (ts ! ?ps)")
    note IH = 2 [OF True, unfolded c fst_conv snd_conv]
    define A where "A = concat (map pids (take ?ps ts))"
    define B where "B = pids (ts ! ?ps)"
    define C where "C = concat (map pids (drop (Suc ?ps) ts))"
    have ts: "ts = take ?ps ts @ ts ! ?ps # drop (Suc ?ps) ts"
      using True by (rule id_take_nth_drop)
    have e: "concat (map pids ts) = A @ B @ C"
      unfolding A_def B_def C_def by (subst ts) simp
    note IH0 = IH [folded B_def]
    have ih: "apid c = apid (ts ! ?ps)" "aright c = aright (ts ! ?ps)" "h \<le> h1"
      "set (pids c) = set B \<union> {h + 1 .. h1}"
      using IH0 by simp_all
    have ihd: "distinct (pids c)" if "distinct B" "\<forall>q\<in>set B. q \<le> h"
      using IH0 that by simp
    have se: "set (concat (map pids ts)) = set A \<union> set B \<union> set C"
      unfolding e by auto
    show ?thesis
    proof (cases "ORDER < length (aents c)")
      case ov: False
      have r: "ains h v (Nd p r es ts) = (Nd p r es (ts[?ps := c]), h1)"
        using True c ov by simp
      have e': "concat (map pids (ts[?ps := c])) = A @ pids c @ C"
        using True by (simp add: upd_conv_take_nth_drop A_def C_def)
      have s: "set (pids (Nd p r es (ts[?ps := c]))) = set (pids (Nd p r es ts)) \<union> {h + 1 .. h1}"
        unfolding pids.simps e' using ih(4) se by auto
      have "distinct (pids (Nd p r es (ts[?ps := c])))"
        if d: "distinct (pids (Nd p r es ts))" "\<forall>q\<in>set (pids (Nd p r es ts)). q \<le> h"
      proof -
        have dd: "distinct (p # A @ B @ C)" and le0: "\<forall>q\<in>set (p # A @ B @ C). q \<le> h"
          using d e by simp_all
        have le: "p \<le> h" "\<forall>q\<in>set A. q \<le> h" "\<forall>q\<in>set B. q \<le> h" "\<forall>q\<in>set C. q \<le> h"
          using le0 by auto
        have dc: "distinct (pids c)" using ihd dd le by auto
        note sc = ih(4)
        have "set (pids c) \<subseteq> set B \<union> {h + 1 ..}" unfolding sc by auto
        then have "distinct (p # A @ pids c @ C)"
          using distinct_replace [OF dd le0 dc] by blast
        then show ?thesis using e' by simp
      qed
      then show ?thesis unfolding r fst_conv snd_conv apid.simps aright.simps
        using ih(3) s by (simp del: pids.simps)
    next
      case ov: True
      obtain l m rt where sp: "split_a (h1 + 1) c = (l, m, rt)" by (cases "split_a (h1 + 1) c") auto
      let ?ts = "take ?ps ts @ l # rt # drop (?ps + 1) ts"
      have r: "ains h v (Nd p r es ts) = (Nd p r (ins_at ?ps m es) ?ts, h1 + 1)"
        using True c ov sp by simp
      have e': "concat (map pids ?ts) = A @ (pids l @ pids rt) @ C" by (simp add: A_def C_def)
      have slr: "set (pids l @ pids rt) = insert (h1 + 1) (set (pids c))"
        using split_a_ids(4) [OF sp] .
      have slr': "set (pids l) \<union> set (pids rt) = insert (h1 + 1) (set B \<union> {h + 1 .. h1})"
        using slr ih(4) by simp
      define D where "D = pids l @ pids rt"
      have sD: "set D = insert (h1 + 1) (set B \<union> {h + 1 .. h1})"
        using slr ih(4) by (simp add: D_def)
      note e' = e' [folded D_def]
      have s: "set (pids (Nd p r (ins_at ?ps m es) ?ts)) = set (pids (Nd p r es ts)) \<union> {h + 1 .. h1 + 1}"
      proof -
        have "set (pids (Nd p r (ins_at ?ps m es) ?ts)) = insert p (set A \<union> set D \<union> set C)"
          unfolding pids.simps e' by auto
        also have "\<dots> = insert p (set A \<union> set B \<union> set C) \<union> {h + 1 .. h1 + 1}"
          unfolding sD using ih(3) by auto
        also have "\<dots> = set (pids (Nd p r es ts)) \<union> {h + 1 .. h1 + 1}"
          unfolding pids.simps using se by simp
        finally show ?thesis .
      qed
      have "distinct (pids (Nd p r (ins_at ?ps m es) ?ts))"
        if d: "distinct (pids (Nd p r es ts))" "\<forall>q\<in>set (pids (Nd p r es ts)). q \<le> h"
      proof -
        have dd: "distinct (p # A @ B @ C)" and le0: "\<forall>q\<in>set (p # A @ B @ C). q \<le> h"
          using d e by simp_all
        have le: "p \<le> h" "\<forall>q\<in>set A. q \<le> h" "\<forall>q\<in>set B. q \<le> h" "\<forall>q\<in>set C. q \<le> h"
          using le0 by auto
        have dc: "distinct (pids c)" using ihd dd le by auto
        note sc = ih(4)
        have fresh: "h1 + 1 \<notin> set (pids c)" using sc le ih(3) by auto
        have dlr: "distinct D" unfolding D_def using split_a_ids(5) [OF sp dc fresh] .
        have "set D \<subseteq> set B \<union> {h + 1 ..}" unfolding sD using ih(3) by auto
        then have "distinct (p # A @ D @ C)"
          using distinct_replace [OF dd le0 dlr] by blast
        then show ?thesis unfolding pids.simps e' by simp
      qed
      then show ?thesis unfolding r fst_conv snd_conv apid.simps aright.simps
        using ih(3) s by (simp del: pids.simps)
    qed
  qed
qed

subsection \<open>The store and the tree it holds\<close>

lemma rep_top: "rep pg a \<Longrightarrow> top pg a"
  by (cases a) auto

lemma rep_kid: "rep pg a \<Longrightarrow> c \<in> set (akids a) \<Longrightarrow> rep pg c"
  by (cases a) auto

lemma rep_pids: "rep pg a \<Longrightarrow> q \<in> set (pids a) \<Longrightarrow> 0 < q \<and> nat q < length pg"
  by (induction a) (auto simp: top_def)

lemma rep_frame:
  "rep pg a \<Longrightarrow> length pg \<le> length pg' \<Longrightarrow> (\<forall>q\<in>set (pids a). pg' ! nat q = pg ! nat q) \<Longrightarrow>
   rep pg' a"
proof (induction a)
  case (Lf p r es)
  then show ?case by (auto simp: top_def)
next
  case (Nd p r es ts)
  have "top pg' (Nd p r es ts)" using Nd.prems by (auto simp: top_def)
  moreover have "rep pg' c" if "c \<in> set ts" for c
    using Nd.IH [OF that] Nd.prems that by auto
  ultimately show ?case using Nd.prems by simp
qed

lemma rep_nd_shape: "rep pg (Nd p r es ts) \<Longrightarrow> length ts = length es + 1"
  by (auto simp: top_def nmatch_def)

lemma pids_nonempty: "pids a \<noteq> []"
  by (cases a) auto

lemma pids_kid_facts:
  assumes "distinct (pids (Nd p r es ts))" "i < length ts"
  shows "distinct (pids (ts ! i))" "p \<notin> set (pids (ts ! i))"
    "set (pids (ts ! i)) \<subseteq> set (pids (Nd p r es ts))"
    "j < length ts \<Longrightarrow> j \<noteq> i \<Longrightarrow> set (pids (ts ! i)) \<inter> set (pids (ts ! j)) = {}"
proof -
  have d: "distinct (concat (map pids ts))" and np: "p \<notin> set (concat (map pids ts))"
    using assms(1) by simp_all
  have mem: "pids (ts ! i) \<in> set (map pids ts)" using assms(2) by simp
  show "distinct (pids (ts ! i))" using d mem unfolding distinct_concat_iff by blast
  show "p \<notin> set (pids (ts ! i))" using np assms(2) by auto
  show "set (pids (ts ! i)) \<subseteq> set (pids (Nd p r es ts))" using assms(2) by auto
  assume j: "j < length ts" "j \<noteq> i"
  have dm: "distinct (map pids ts)"
  proof -
    have "removeAll [] (map pids ts) = map pids ts"
      by (rule removeAll_id) (auto simp: pids_nonempty [symmetric])
    then show ?thesis using d unfolding distinct_concat_iff by simp
  qed
  have "map pids ts ! i \<noteq> map pids ts ! j"
    using dm j assms(2) by (simp add: nth_eq_iff_index_eq del: nth_map)
  then have ne: "pids (ts ! i) \<noteq> pids (ts ! j)" using j assms(2) by simp
  have memj: "pids (ts ! j) \<in> set (map pids ts)" using j by simp
  show "set (pids (ts ! i)) \<inter> set (pids (ts ! j)) = {}"
    using d mem memj ne unfolding distinct_concat_iff by blast
qed

lemma in_take_drop_nth:
  "x \<in> set (take ps ts) \<union> set (drop (Suc ps) ts) \<Longrightarrow> \<exists>i<length ts. i \<noteq> ps \<and> x = ts ! i"
proof (erule UnE)
  assume "x \<in> set (take ps ts)"
  then obtain i where "i < length (take ps ts)" "take ps ts ! i = x"
    unfolding in_set_conv_nth by blast
  then show ?thesis by (intro exI [of _ i]) auto
next
  assume "x \<in> set (drop (Suc ps) ts)"
  then obtain i where "i < length (drop (Suc ps) ts)" "drop (Suc ps) ts ! i = x"
    unfolding in_set_conv_nth by blast
  then show ?thesis by (intro exI [of _ "Suc ps + i"]) auto
qed

lemma in_update_nth:
  "x \<in> set (ts[ps := c]) \<Longrightarrow> x = c \<or> (\<exists>i<length ts. i \<noteq> ps \<and> x = ts ! i)"
proof -
  assume "x \<in> set (ts[ps := c])"
  then obtain i where i: "i < length ts" "ts[ps := c] ! i = x"
    unfolding in_set_conv_nth by auto
  show ?thesis
  proof (cases "i = ps")
    case True
    then show ?thesis using i by simp
  next
    case False
    then have "x = ts ! i" using i by simp
    then show ?thesis using i False by blast
  qed
qed

subsection \<open>Capacity\<close>

lemma cap_capk: "cap a \<Longrightarrow> capk a"
  by (cases a) (auto simp: capk_def)

lemma capk_cap: "capk a \<Longrightarrow> length (aents a) \<le> ORDER \<Longrightarrow> cap a"
  by (cases a) (auto simp: capk_def)

lemma split_a_cap:
  assumes "split_a q c = (l, m, rt)" "capk c"
  shows "cap l" "cap rt"
proof -
  have h: "half \<le> ORDER" "0 < half" by (rule half_le)+
  have t: "\<And>n x (xs :: 'a atree list). x \<in> set (take n xs) \<Longrightarrow> x \<in> set xs"
    by (rule in_set_takeD)
  have d: "\<And>n x (xs :: 'a atree list). x \<in> set (drop n xs) \<Longrightarrow> x \<in> set xs"
    by (rule in_set_dropD)
  show "cap l"
  proof (cases c)
    case (Lf p r es)
    then show ?thesis using assms h by (auto simp: capk_def)
  next
    case (Nd p r es ts)
    then have "\<forall>x\<in>set ts. cap x" using assms(2) by (simp add: capk_def)
    then have "\<forall>x\<in>set (take (half + 1) ts). cap x" using t by blast
    then show ?thesis using Nd assms(1) h by auto
  qed
  show "cap rt"
  proof (cases c)
    case (Lf p r es)
    then show ?thesis using assms h by (auto simp: capk_def)
  next
    case (Nd p r es ts)
    then have "\<forall>x\<in>set ts. cap x" using assms(2) by (simp add: capk_def)
    then have "\<forall>x\<in>set (drop (half + 1) ts). cap x" using d by blast
    then show ?thesis using Nd assms h by (auto simp: capk_def)
  qed
qed

lemma ains_capk: "cap a \<Longrightarrow> capk (fst (ains h v a))"
proof (induction h v a rule: ains.induct)
  case (1 h v p r es)
  then show ?case by (simp add: capk_def ins_at_def)
next
  case (2 h v p r es ts)
  let ?ps = "lpos v es"
  show ?case
  proof (cases "?ps < length ts")
    case False
    then show ?thesis using 2(2) by (simp add: capk_def)
  next
    case True
    obtain c h1 where c: "ains h v (ts ! ?ps) = (c, h1)" by (cases "ains h v (ts ! ?ps)")
    have "cap (ts ! ?ps)" using 2(2) True by simp
    from 2(1) [OF True this] have ck: "capk c" using c by simp
    show ?thesis
    proof (cases "ORDER < length (aents c)")
      case ov: False
      then have "cap c" using ck by (intro capk_cap) simp_all
      moreover have r: "ains h v (Nd p r es ts) = (Nd p r es (ts[?ps := c]), h1)"
        using True c ov by simp
      ultimately show ?thesis unfolding r using 2(2)
        by (auto simp: capk_def dest!: in_update_nth)
    next
      case ov: True
      obtain l m rt where sp: "split_a (h1 + 1) c = (l, m, rt)" by (cases "split_a (h1 + 1) c") auto
      have r: "ains h v (Nd p r es ts) =
          (Nd p r (ins_at ?ps m es) (take ?ps ts @ l # rt # drop (?ps + 1) ts), h1 + 1)"
        using True c ov sp by simp
      show ?thesis unfolding r using 2(2) split_a_cap [OF sp ck]
        by (auto simp: capk_def ins_at_def dest: in_set_takeD in_set_dropD)
    qed
  qed
qed

lemma length_ins_at: "ps \<le> length es \<Longrightarrow> length (ins_at ps v es) = length es + 1"
  by (simp add: ins_at_def)

lemma nat_inj_pos: "0 < (a::int) \<Longrightarrow> 0 < b \<Longrightarrow> nat a = nat b \<Longrightarrow> a = b"
  by simp

text \<open>\<^verbatim>\<open>insert_helper\<close> on a store that holds the tree \<open>a\<close> does what \<open>ains\<close> does to \<open>a\<close>.\<close>

lemma insert_helper_ref:
  fixes t :: "'k::linorder bptree"
  shows "rep (pager t) a \<Longrightarrow> cap a \<Longrightarrow> distinct (pids a) \<Longrightarrow> \<forall>q\<in>set (pids a). q \<le> h \<Longrightarrow>
     int (length (pager t)) = h + 1 \<Longrightarrow> hcount t = h \<Longrightarrow>
     pager t ! nat (apid a) = PNode n \<Longrightarrow>
     \<exists>t'. insert_helper u t n v =
            Some (t', if ORDER < length (aents (fst (ains h v a))) then BT_OVERFLOW else OK) \<and>
          rep (pager t') (fst (ains h v a)) \<and> hcount t' = snd (ains h v a) \<and>
          root_id t' = root_id t \<and> int (length (pager t')) = hcount t' + 1 \<and>
          (\<forall>k. 0 < k \<and> k < length (pager t) \<and> int k \<notin> set (pids a) \<longrightarrow>
               pager t' ! k = pager t ! k)"
proof (induction h v a arbitrary: n rule: ains.induct)
  case (1 h v p r es)
  let ?ps = "lpos v es"
  have tp: "0 < p" "nat p < length (pager t)" and nm: "nmatch n p r es []"
    using 1(1,7) by (auto simp: top_def)
  have le: "length es \<le> ORDER" using 1(2) by simp
  have sc: "scan_lt n v 0 = ?ps" using nmatch_scan_lt [OF nm] .
  have ch: "children n ! ?ps = 0"
    using nmatch_leaf_children [OF nm, of ?ps] lpos_le [of v es] le by simp
  define n1 where "n1 = insert_in_node n ?ps v"
  have nm1: "nmatch n1 p r (ins_at ?ps v es) []"
    unfolding n1_def ins_at_def using nmatch_insert_leaf [OF nm le lpos_le] .
  have li: "length (ins_at ?ps v es) = length es + 1" using lpos_le by (rule length_ins_at)
  have f1: "page_id n1 = p" "count n1 = length es + 1"
    using nm1 li by (simp_all add: nmatch_def)
  define t' where "t' = write_node p n1 t"
  have pg: "pager t' = (pager t)[nat p := PNode n1]"
    using tp by (simp add: t'_def write_node_def save_def)
  have f2: "hcount t' = h" "root_id t' = root_id t"
    using 1(6) by (simp_all add: t'_def write_node_def)
  have ih: "insert_helper u t n v =
      Some (t', if ORDER < length es + 1 then BT_OVERFLOW else OK)"
    by (subst insert_helper.simps)
      (simp add: sc ch Let_def n1_def [symmetric] f1 t'_def is_overflow_def)
  have rp: "rep (pager t') (Lf p r (ins_at ?ps v es))"
    using tp nm1 pg by (simp add: top_def)
  have fr: "\<forall>k. 0 < k \<and> k < length (pager t) \<and> int k \<notin> set (pids (Lf p r es)) \<longrightarrow>
      pager t' ! k = pager t ! k"
    using tp pg by auto
  have ln: "int (length (pager t')) = hcount t' + 1" using pg f2 1(5) by simp
  show ?case
    unfolding ains.simps fst_conv snd_conv aents.simps li
    using ih rp f2 ln fr by blast
next
  case (2 h v p r es ts)
  let ?a = "Nd p r es ts"
  let ?ps = "lpos v es"
  have rp: "rep (pager t) ?a" and ca: "cap ?a" and di: "distinct (pids ?a)"
    and le: "\<forall>q\<in>set (pids ?a). q \<le> h" and ln: "int (length (pager t)) = h + 1"
    and hc: "hcount t = h" and pn: "pager t ! nat p = PNode n"
    using 2(2-) by simp_all
  have tp: "0 < p" "nat p < length (pager t)" and nm: "nmatch n p r es (map apid ts)"
    and ne: "ts \<noteq> []"
    using rp pn by (auto simp: top_def)
  have lts: "length ts = length es + 1" using rep_nd_shape [OF rp] .
  have ps: "?ps \<le> length es" "?ps < length ts" using lpos_le [of v es] lts by simp_all
  have les: "length es \<le> ORDER" using ca by simp
  have cn: "count n = length es" using nm by (simp add: nmatch_def)
  have sc: "scan_lt n v 0 = ?ps" using nmatch_scan_lt [OF nm] .
  define c0 where "c0 = ts ! ?ps"
  have c0in: "c0 \<in> set ts" using ps(2) by (simp add: c0_def)
  have rc0: "rep (pager t) c0" and cc0: "cap c0" using rp ca c0in by auto
  define cp where "cp = apid c0"
  have cpos: "0 < cp" "nat cp < length (pager t)"
    using rep_top [OF rc0] by (simp_all add: top_def cp_def)
  obtain nc where nc: "pager t ! nat cp = PNode nc"
    using rep_top [OF rc0] by (auto simp: top_def cp_def)
  have dk: "distinct (pids c0)" "p \<notin> set (pids c0)" "set (pids c0) \<subseteq> set (pids ?a)"
    using pids_kid_facts(1-3) [OF di ps(2)] unfolding c0_def by blast+
  have disj: "set (pids c0) \<inter> set (pids (ts ! j)) = {}" if "j < length ts" "j \<noteq> ?ps" for j
    using pids_kid_facts(4) [OF di ps(2) that] unfolding c0_def .
  have lek: "\<forall>q\<in>set (pids c0). q \<le> h" using le dk(3) by blast
  have cpin: "cp \<in> set (pids c0)" unfolding cp_def by (rule apid_hd_pids)
  have cpp: "cp \<noteq> p" using cpin dk(2) by auto
  obtain c h1 where c: "ains h v c0 = (c, h1)" by (cases "ains h v c0")
  have "\<exists>t'. insert_helper u t nc v =
            Some (t', if ORDER < length (aents (fst (ains h v c0))) then BT_OVERFLOW else OK) \<and>
          rep (pager t') (fst (ains h v c0)) \<and> hcount t' = snd (ains h v c0) \<and>
          root_id t' = root_id t \<and> int (length (pager t')) = hcount t' + 1 \<and>
          (\<forall>k. 0 < k \<and> k < length (pager t) \<and> int k \<notin> set (pids c0) \<longrightarrow>
               pager t' ! k = pager t ! k)"
    unfolding c0_def
    by (rule 2(1) [OF ps(2)])
       (use rc0 cc0 dk(1) lek ln hc nc in \<open>simp_all add: c0_def cp_def\<close>)
  then obtain t1 where t1:
    "insert_helper u t nc v = Some (t1, if ORDER < length (aents c) then BT_OVERFLOW else OK)"
    "rep (pager t1) c" "hcount t1 = h1" "root_id t1 = root_id t"
    "int (length (pager t1)) = h1 + 1"
    and fr0: "\<forall>k. 0 < k \<and> k < length (pager t) \<and> int k \<notin> set (pids c0) \<longrightarrow>
           pager t1 ! k = pager t ! k"
    unfolding c fst_conv snd_conv by auto
  have ap: "apid c = cp" "aright c = aright c0" "h \<le> h1"
    "set (pids c) = set (pids c0) \<union> {h + 1 .. h1}" "distinct (pids c)"
    using ains_props [of h v c0] dk(1) lek unfolding c fst_conv snd_conv cp_def by simp_all
  have chn: "children n ! ?ps = cp"
    using nmatch_children_nth [OF nm, of ?ps] ne ps(2) by (simp add: c0_def cp_def)
  have rd: "read_node u t cp = Some nc"
    using cpos nc by (simp add: read_node_def recover_def)
  have lnle: "length (pager t) \<le> length (pager t1)" using ln t1(5) ap(3) by linarith
  have others: "rep (pager t1) (ts ! i)" if i: "i < length ts" "i \<noteq> ?ps" for i
  proof (rule rep_frame [OF _ lnle])
    show "rep (pager t) (ts ! i)" using rp i(1) by simp
    show "\<forall>q\<in>set (pids (ts ! i)). pager t1 ! nat q = pager t ! nat q"
    proof
      fix q assume q: "q \<in> set (pids (ts ! i))"
      have "rep (pager t) (ts ! i)" using rp i(1) by simp
      from rep_pids [OF this q] have "0 < q" "nat q < length (pager t)" by simp_all
      moreover have "q \<notin> set (pids c0)" using disj [OF i] q by blast
      ultimately show "pager t1 ! nat q = pager t ! nat q" using fr0 by simp
    qed
  qed
  have pageP: "pager t1 ! nat p = PNode n"
    using fr0 tp dk(2) pn by simp
  have fr1: "pager t1 ! k = pager t ! k"
    if "0 < k" "k < length (pager t)" "int k \<notin> set (pids ?a)" for k
    using fr0 that dk(3) by blast
  have pin: "p \<in> set (pids ?a)" by simp
  have cpa: "cp \<in> set (pids ?a)" using cpin dk(3) by blast
  show ?case
  proof (cases "ORDER < length (aents c)")
    case False
    have r: "ains h v ?a = (Nd p r es (ts[?ps := c]), h1)"
      using ps(2) c False by (simp add: c0_def)
    have ih: "insert_helper u t n v = Some (t1, OK)"
      using cpos(1) les
      by (subst insert_helper.simps)
        (simp add: sc chn rd t1(1) False is_overflow_def cn)
    have mp: "map apid (ts[?ps := c]) = map apid ts"
      using ap(1) ps(2) by (simp add: map_update cp_def c0_def list_update_same_conv)
    have tp1: "top (pager t1) (Nd p r es (ts[?ps := c]))"
      using tp lnle pageP nm mp by (simp add: top_def)
    have kids: "rep (pager t1) k" if "k \<in> set (ts[?ps := c])" for k
      using in_update_nth [OF that] t1(2) others by auto
    have rp1: "rep (pager t1) (Nd p r es (ts[?ps := c]))"
      using tp1 kids ne by simp
    show ?thesis
      unfolding r fst_conv snd_conv aents.simps
      using ih rp1 t1(3,4,5) fr1 les by (intro exI [of _ t1]) simp
  next
    case True
    have ck: "capk c" using ains_capk [OF cc0, of h v] c by simp
    have lc: "length (aents c) = ORDER + 1" using ck True by (simp add: capk_def)
    obtain nc' where nc': "pager t1 ! nat cp = PNode nc'"
      "nmatch nc' cp (aright c) (aents c) (map apid (akids c))"
      using rep_top [OF t1(2)] ap(1) by (auto simp: top_def)
    have st1: "int (length (pager t1)) = hcount t1 + 1" using t1(3,5) by simp
    have tp1: "nat p < length (pager t1)" "nat cp < length (pager t1)"
      using tp(2) cpos(2) lnle by simp_all
    have csps: "map apid ts ! ?ps = cp" using ps(2) by (simp add: c0_def cp_def)
    have mne: "map apid ts \<noteq> []" using ne by simp
    from split_child_spec [OF nm mne les ps(1) st1 tp(1) tp1(1) csps cpos(1) tp1(2) cpp nc' lc,
        of u]
    obtain t2 P L R where sp:
      "split_child u t1 n ?ps = Some (t2, P)" "count P = length es + 1"
      "hcount t2 = hcount t1 + 1" "root_id t2 = root_id t1"
      "length (pager t2) = length (pager t1) + 1"
      "pager t2 ! nat p = PNode P" "pager t2 ! nat cp = PNode L"
      "pager t2 ! length (pager t1) = PNode R"
      and fr2: "\<forall>k. 0 < k \<and> k < length (pager t1) \<and> k \<noteq> nat p \<and> k \<noteq> nat cp \<longrightarrow>
           pager t2 ! k = pager t1 ! k"
      and nP: "nmatch P p r (take ?ps es @ aents c ! half # drop ?ps es)
        (take ?ps (map apid ts) @ cp # (hcount t1 + 1) # drop (?ps + 1) (map apid ts))"
      and nLR: "if map apid (akids c) = []
         then nmatch L cp (hcount t1 + 1) (take half (aents c)) [] \<and>
              nmatch R (hcount t1 + 1) (aright c) (drop half (aents c)) []
         else nmatch L cp (aright c) (take half (aents c)) (take (half + 1) (map apid (akids c))) \<and>
              nmatch R (hcount t1 + 1) 0 (drop (half + 1) (aents c))
                (drop (half + 1) (map apid (akids c)))"
      by blast
    obtain l m rt where spa: "split_a (h1 + 1) c = (l, m, rt)"
      by (cases "split_a (h1 + 1) c") auto
    let ?ts = "take ?ps ts @ l # rt # drop (?ps + 1) ts"
    have r: "ains h v ?a = (Nd p r (ins_at ?ps m es) ?ts, h1 + 1)"
      using ps(2) c True spa by (simp add: c0_def)
    have m: "m = aents c ! half" using spa by (cases c) auto
    have ids: "apid l = cp" "apid rt = h1 + 1"
      using split_a_ids(1,2) [OF spa] ap(1) by simp_all
    have ih: "insert_helper u t n v =
        Some (t2, if ORDER < length es + 1 then BT_OVERFLOW else OK)"
      using cpos(1)
      by (subst insert_helper.simps)
        (simp add: sc chn rd t1(1) True sp(1,2) is_overflow_def)
    have h1n: "nat (h1 + 1) = length (pager t1)" using t1(5) [symmetric] by simp
    have h1pos: "0 < h1 + 1" using t1(5) tp1(1) by linarith
    have ln2: "length (pager t1) \<le> length (pager t2)" using sp(5) by simp
    have pnc: "p \<notin> set (pids c)" using ap(4) dk(2) le pin by auto
    have kidfr: "rep (pager t2) k" if k: "k \<in> set (akids c)" for k
    proof (rule rep_frame [OF _ ln2])
      show rk: "rep (pager t1) k" using rep_kid [OF t1(2) k] .
      show "\<forall>q\<in>set (pids k). pager t2 ! nat q = pager t1 ! nat q"
      proof
        fix q assume q: "q \<in> set (pids k)"
        from rep_pids [OF rk q] have q0: "0 < q" "nat q < length (pager t1)" by simp_all
        obtain cp' cr ces cts where cN: "c = Nd cp' cr ces cts" using k by (cases c) auto
        obtain i where i: "i < length cts" "k = cts ! i"
          using k cN by (auto simp: in_set_conv_nth)
        have "cp' \<notin> set (pids (cts ! i))" "set (pids (cts ! i)) \<subseteq> set (pids c)"
          using pids_kid_facts(2,3) [OF ap(5) [unfolded cN] i(1)] cN by simp_all
        then have "q \<noteq> cp" "q \<noteq> p" using q i(2) cN ap(1) pnc by auto
        then have "nat q \<noteq> nat cp" "nat q \<noteq> nat p" using q0(1) cpos(1) tp(1) by simp_all
        then show "pager t2 ! nat q = pager t1 ! nat q" using fr2 q0 by simp
      qed
    qed
    have rl: "rep (pager t2) l \<and> rep (pager t2) rt"
    proof (cases c)
      case (Lf cp' cr ces)
      then have l: "l = Lf cp (h1 + 1) (take half ces)" "rt = Lf (h1 + 1) cr (drop half ces)"
        using spa ap(1) by auto
      have "nmatch L cp (h1 + 1) (take half ces) []" "nmatch R (h1 + 1) cr (drop half ces) []"
        using nLR Lf t1(3) by simp_all
      then show ?thesis
        unfolding l using sp(5,7,8) cpos(1) tp1(2) h1n h1pos by (simp add: top_def)
    next
      case (Nd cp' cr ces cts)
      then have l: "l = Nd cp cr (take half ces) (take (half + 1) cts)"
        "rt = Nd (h1 + 1) 0 (drop (half + 1) ces) (drop (half + 1) cts)"
        using spa ap(1) by auto
      have cts: "cts \<noteq> []" "length cts = length ces + 1"
        using t1(2) Nd rep_nd_shape [of "pager t1" cp' cr ces cts] by auto
      have lces: "length ces = ORDER + 1" using lc Nd by simp
      have "nmatch L cp cr (take half ces) (take (half + 1) (map apid cts))"
        "nmatch R (h1 + 1) 0 (drop (half + 1) ces) (drop (half + 1) (map apid cts))"
        using nLR Nd t1(3) cts(1) by simp_all
      then have tl: "top (pager t2) l" "top (pager t2) rt"
        unfolding l using sp(5,7,8) cpos(1) tp1(2) h1n h1pos
        by (simp_all add: top_def take_map drop_map)
      have k1: "\<forall>k\<in>set (take (half + 1) cts). rep (pager t2) k"
        using kidfr Nd by (auto dest: in_set_takeD)
      have k2: "\<forall>k\<in>set (drop (half + 1) cts). rep (pager t2) k"
        using kidfr Nd by (auto dest: in_set_dropD)
      have "take (half + 1) cts \<noteq> []" "drop (half + 1) cts \<noteq> []"
        using cts lces half_le by auto
      then show ?thesis unfolding l using tl [unfolded l] k1 k2 by simp
    qed
    have others2: "rep (pager t2) (ts ! i)" if i: "i < length ts" "i \<noteq> ?ps" for i
    proof (rule rep_frame [OF others [OF i] ln2])
      show "\<forall>q\<in>set (pids (ts ! i)). pager t2 ! nat q = pager t1 ! nat q"
      proof
        fix q assume q: "q \<in> set (pids (ts ! i))"
        from rep_pids [OF others [OF i] q] have q0: "0 < q" "nat q < length (pager t1)"
          by simp_all
        have "q \<notin> set (pids c0)" using disj [OF i] q by blast
        moreover have "q \<noteq> p" using pids_kid_facts(2) [OF di i(1)] q by auto
        ultimately have "q \<noteq> cp" "q \<noteq> p" using cpin by auto
        then have "nat q \<noteq> nat cp" "nat q \<noteq> nat p" using q0(1) cpos(1) tp(1) by simp_all
        then show "pager t2 ! nat q = pager t1 ! nat q" using fr2 q0 by simp
      qed
    qed
    have mp: "map apid ?ts =
        take ?ps (map apid ts) @ cp # (hcount t1 + 1) # drop (?ps + 1) (map apid ts)"
      using ids t1(3) by (simp add: take_map drop_map)
    have tpP: "top (pager t2) (Nd p r (ins_at ?ps m es) ?ts)"
      unfolding top_def apid.simps aright.simps aents.simps akids.simps mp ins_at_def m
      using tp(1) tp1(1) ln2 sp(6) nP by auto
    have kids: "rep (pager t2) k" if "k \<in> set ?ts" for k
    proof -
      have "k = l \<or> k = rt \<or> k \<in> set (take ?ps ts) \<union> set (drop (Suc ?ps) ts)"
        using that by auto
      then show ?thesis using rl in_take_drop_nth [of k ?ps ts] others2 by blast
    qed
    have rp2: "rep (pager t2) (Nd p r (ins_at ?ps m es) ?ts)"
      using tpP kids by simp
    have fr: "pager t2 ! k = pager t ! k"
      if k: "0 < k" "k < length (pager t)" "int k \<notin> set (pids ?a)" for k
    proof -
      have "k \<noteq> nat p" "k \<noteq> nat cp" using k(3) pin cpa tp(1) cpos(1) by auto
      then have "pager t2 ! k = pager t1 ! k" using fr2 k(1,2) lnle by simp
      then show ?thesis using fr1 [OF k] by simp
    qed
    have li: "length (ins_at ?ps m es) = length es + 1" using ps(1) by (rule length_ins_at)
    show ?thesis
      unfolding r fst_conv snd_conv aents.simps li
      using ih rp2 sp(3,4,5) t1(3,4,5) fr by (intro exI [of _ t2]) simp
  qed
qed

subsection \<open>\<^verbatim>\<open>insert\<close> and the split of the root\<close>

lemma rootlr_cap:
  assumes "capk c"
  shows "cap (rootl q q2 c)" "cap (rootr q c)"
proof -
  have h: "half \<le> ORDER" "0 < half" by (rule half_le)+
  have t: "\<And>n x (xs :: 'a atree list). x \<in> set (take n xs) \<Longrightarrow> x \<in> set xs"
    by (rule in_set_takeD)
  have d: "\<And>n x (xs :: 'a atree list). x \<in> set (drop n xs) \<Longrightarrow> x \<in> set xs"
    by (rule in_set_dropD)
  show "cap (rootl q q2 c)"
  proof (cases c)
    case (Lf p r es)
    then show ?thesis using assms h by (auto simp: capk_def)
  next
    case (Nd p r es ts)
    then have "\<forall>x\<in>set ts. cap x" using assms by (simp add: capk_def)
    then have "\<forall>x\<in>set (take (half + 1) ts). cap x" using t by blast
    then show ?thesis using Nd h by auto
  qed
  show "cap (rootr q c)"
  proof (cases c)
    case (Lf p r es)
    then show ?thesis using assms h by (auto simp: capk_def)
  next
    case (Nd p r es ts)
    then have "\<forall>x\<in>set ts. cap x" using assms by (simp add: capk_def)
    then have "\<forall>x\<in>set (drop (half + 1) ts). cap x" using d by blast
    then show ?thesis using Nd assms h by (auto simp: capk_def)
  qed
qed

lemma rootlr_pids:
  "\<exists>A B. pids (rootl q q2 c) = q # A \<and> pids (rootr q' c) = q' # B \<and> pids c = apid c # A @ B"
proof (cases c)
  case (Lf p r es)
  then show ?thesis by simp
next
  case (Nd p r es ts)
  have "concat (map pids ts) =
      concat (map pids (take (half + 1) ts)) @ concat (map pids (drop (half + 1) ts))"
    by (metis append_take_drop_id concat_append map_append)
  then show ?thesis using Nd by simp
qed

lemma rootlr_ids: "apid (rootl q q2 c) = q" "apid (rootr q' c) = q'"
  by (cases c; simp)+

lemma BplusTree_insert_ref:
  fixes t :: "'k::linorder bptree"
  assumes inv: "tinv t a"
  shows "\<exists>t'. BplusTree_insert u v t = Some t' \<and> tinv t' (fst (ainsert (hcount t) v a)) \<and>
     hcount t' = snd (ainsert (hcount t) v a)"
proof -
  define h where "h = hcount t"
  define p where "p = apid a"
  have rp: "rep (pager t) a" and ca: "cap a" and di: "distinct (pids a)"
    and sp: "set (pids a) = {1 .. h}" and ln: "int (length (pager t)) = h + 1"
    and rt: "root_id t = p"
    using inv by (simp_all add: tinv_def h_def p_def)
  obtain n where tp: "0 < p" "nat p < length (pager t)" and pn: "pager t ! nat p = PNode n"
    using rep_top [OF rp] by (auto simp: top_def p_def)
  have h0: "1 \<le> h" using ln tp by linarith
  have le: "\<forall>q\<in>set (pids a). q \<le> h" using sp by simp
  have rd: "read_node u t (root_id t) = Some n"
    using tp pn rt by (simp add: read_node_def recover_def)
  obtain c h1 where c: "ains h v a = (c, h1)" by (cases "ains h v a")
  from insert_helper_ref [OF rp ca di le ln h_def [symmetric] pn [unfolded p_def], of u v]
  obtain t1 where t1:
    "insert_helper u t n v = Some (t1, if ORDER < length (aents c) then BT_OVERFLOW else OK)"
    "rep (pager t1) c" "hcount t1 = h1" "root_id t1 = root_id t"
    "int (length (pager t1)) = h1 + 1"
    unfolding c fst_conv snd_conv by auto
  have ap: "apid c = p" "aright c = aright a" "h \<le> h1"
    "set (pids c) = set (pids a) \<union> {h + 1 .. h1}" "distinct (pids c)"
    using ains_props [of h v a] di le unfolding c fst_conv snd_conv p_def by simp_all
  have spc: "set (pids c) = {1 .. h1}" unfolding ap(4) sp using h0 ap(3) by auto
  have ck: "capk c" using ains_capk [OF ca, of h v] c by simp
  show ?thesis
  proof (cases "ORDER < length (aents c)")
    case False
    have r: "ainsert h v a = (c, h1)" using c False by (simp add: ainsert_def)
    have ih: "BplusTree_insert u v t = Some t1"
      using rd t1(1) False by (simp add: BplusTree_insert_def)
    have "cap c" using ck False by (intro capk_cap) simp_all
    then have "tinv t1 c"
      using t1 ap spc rt by (simp add: tinv_def)
    then show ?thesis unfolding h_def [symmetric] r using ih t1(3) by simp
  next
    case True
    have lc: "length (aents c) = ORDER + 1" using ck True by (simp add: capk_def)
    have lnle: "length (pager t) \<le> length (pager t1)" using ln t1(5) ap(3) by linarith
    obtain nc where nc: "pager t1 ! nat p = PNode nc"
      "nmatch nc p (aright c) (aents c) (map apid (akids c))"
      using rep_top [OF t1(2)] ap(1) by (auto simp: top_def)
    have st1: "int (length (pager t1)) = hcount t1 + 1" using t1(3,5) by simp
    have tp1: "nat p < length (pager t1)" using tp(2) lnle by simp
    have rt1: "root_id t1 = p" using t1(4) rt by simp
    from split_root_spec [OF st1 tp(1) tp1 rt1 nc lc, of u]
    obtain t2 P L R where s:
      "split_root u t1 = Some t2" "hcount t2 = hcount t1 + 2" "root_id t2 = root_id t1"
      "length (pager t2) = length (pager t1) + 2"
      "pager t2 ! nat p = PNode P" "pager t2 ! length (pager t1) = PNode L"
      "pager t2 ! (length (pager t1) + 1) = PNode R"
      and fr2: "\<forall>k. 0 < k \<and> k < length (pager t1) \<and> k \<noteq> nat p \<longrightarrow> pager t2 ! k = pager t1 ! k"
      and nP: "nmatch P p (aright c) [aents c ! half] [hcount t1 + 1, hcount t1 + 2]"
      and nLR: "if map apid (akids c) = []
         then nmatch L (hcount t1 + 1) (hcount t1 + 2) (take half (aents c)) [] \<and>
              nmatch R (hcount t1 + 2) 0 (drop half (aents c)) []
         else nmatch L (hcount t1 + 1) (hcount t1 + 2) (take half (aents c))
                (take (half + 1) (map apid (akids c))) \<and>
              nmatch R (hcount t1 + 2) 0 (drop (half + 1) (aents c))
                (drop (half + 1) (map apid (akids c)))"
      by blast
    define l where "l = rootl (h1 + 1) (h1 + 2) c"
    define rr where "rr = rootr (h1 + 2) c"
    define a' where "a' = Nd p (aright c) [aents c ! half] [l, rr]"
    have r: "ainsert h v a = (a', h1 + 2)"
      using c True ap(1) by (simp add: ainsert_def a'_def l_def rr_def)
    have ih: "BplusTree_insert u v t = Some t2"
      using rd t1(1) True s(1) by (simp add: BplusTree_insert_def)
    have h1n: "nat (h1 + 1) = length (pager t1)" "nat (h1 + 2) = length (pager t1) + 1"
      using t1(5) by linarith+
    have h1pos: "0 < h1 + 1" "0 < h1 + 2" using h0 ap(3) by linarith+
    have ln2: "length (pager t1) \<le> length (pager t2)" using s(4) by simp
    have kidfr: "rep (pager t2) k" if k: "k \<in> set (akids c)" for k
    proof (rule rep_frame [OF _ ln2])
      show rk: "rep (pager t1) k" using rep_kid [OF t1(2) k] .
      show "\<forall>q\<in>set (pids k). pager t2 ! nat q = pager t1 ! nat q"
      proof
        fix q assume q: "q \<in> set (pids k)"
        from rep_pids [OF rk q] have q0: "0 < q" "nat q < length (pager t1)" by simp_all
        obtain cp' cr ces cts where cN: "c = Nd cp' cr ces cts" using k by (cases c) auto
        obtain i where i: "i < length cts" "k = cts ! i"
          using k cN by (auto simp: in_set_conv_nth)
        have "cp' \<notin> set (pids (cts ! i))"
          using pids_kid_facts(2) [OF ap(5) [unfolded cN] i(1)] .
        then have "q \<noteq> p" using q i(2) cN ap(1) by auto
        then have "nat q \<noteq> nat p" using q0(1) tp(1) by simp
        then show "pager t2 ! nat q = pager t1 ! nat q" using fr2 q0 by simp
      qed
    qed
    have rl: "rep (pager t2) l \<and> rep (pager t2) rr"
    proof (cases c)
      case (Lf cp' cr ces)
      then have lr: "l = Lf (h1 + 1) (h1 + 2) (take half ces)" "rr = Lf (h1 + 2) 0 (drop half ces)"
        by (simp_all add: l_def rr_def)
      have "nmatch L (h1 + 1) (h1 + 2) (take half ces) []" "nmatch R (h1 + 2) 0 (drop half ces) []"
        using nLR Lf t1(3) by simp_all
      then show ?thesis
        unfolding lr using s(4,6,7) h1n h1pos by (simp add: top_def)
    next
      case (Nd cp' cr ces cts)
      then have lr: "l = Nd (h1 + 1) (h1 + 2) (take half ces) (take (half + 1) cts)"
        "rr = Nd (h1 + 2) 0 (drop (half + 1) ces) (drop (half + 1) cts)"
        by (simp_all add: l_def rr_def)
      have cts: "cts \<noteq> []" "length cts = length ces + 1"
        using t1(2) Nd rep_nd_shape [of "pager t1" cp' cr ces cts] by auto
      have lces: "length ces = ORDER + 1" using lc Nd by simp
      have "nmatch L (h1 + 1) (h1 + 2) (take half ces) (take (half + 1) (map apid cts))"
        "nmatch R (h1 + 2) 0 (drop (half + 1) ces) (drop (half + 1) (map apid cts))"
        using nLR Nd t1(3) cts(1) by simp_all
      then have tl: "top (pager t2) l" "top (pager t2) rr"
        unfolding lr using s(4,6,7) h1n h1pos
        by (simp_all add: top_def take_map drop_map)
      have k1: "\<forall>k\<in>set (take (half + 1) cts). rep (pager t2) k"
        using kidfr Nd by (auto dest: in_set_takeD)
      have k2: "\<forall>k\<in>set (drop (half + 1) cts). rep (pager t2) k"
        using kidfr Nd by (auto dest: in_set_dropD)
      have "take (half + 1) cts \<noteq> []" "drop (half + 1) cts \<noteq> []"
        using cts lces half_le by auto
      then show ?thesis unfolding lr using tl [unfolded lr] k1 k2 by simp
    qed
    have ids: "apid l = h1 + 1" "apid rr = h1 + 2"
      unfolding l_def rr_def by (rule rootlr_ids)+
    have tpP: "top (pager t2) a'"
      unfolding top_def a'_def apid.simps aright.simps aents.simps akids.simps
      using tp(1) tp1 ln2 s(5) nP ids t1(3) by auto
    have rp2: "rep (pager t2) a'" using tpP rl unfolding a'_def by simp
    have cp2: "cap a'"
      using rootlr_cap [OF ck] unfolding a'_def l_def rr_def by (simp add: ORDER_def)
    obtain A B where AB: "pids l = (h1 + 1) # A" "pids rr = (h1 + 2) # B" "pids c = p # A @ B"
      using rootlr_pids [of "h1 + 1" "h1 + 2" c "h1 + 2"] ap(1) unfolding l_def rr_def by blast
    have pa': "pids a' = p # ((h1 + 1) # A) @ ((h1 + 2) # B)"
      unfolding a'_def using AB by simp
    have lec: "p \<le> h1" "\<forall>q\<in>set A. q \<le> h1" "\<forall>q\<in>set B. q \<le> h1"
      using spc AB(3) by auto
    have fresh: "h1 + 1 \<notin> set A" "h1 + 1 \<notin> set B" "h1 + 2 \<notin> set A" "h1 + 2 \<notin> set B"
      using lec(2,3) by fastforce+
    have dc: "distinct (p # A @ B)" using ap(5) AB(3) by simp
    have d2: "distinct (pids a')" unfolding pa' using dc lec(1) fresh by auto
    have "set (pids a') = insert (h1 + 1) (insert (h1 + 2) (set (pids c)))"
      unfolding pa' AB(3) by auto
    also have "\<dots> = {1 .. h1 + 2}" unfolding spc using h0 ap(3) by auto
    finally have s2: "set (pids a') = {1 .. h1 + 2}" .
    have "tinv t2 a'"
      unfolding tinv_def using rp2 cp2 d2 s2 s(2,3,4) t1(3,5) rt1 by (simp add: a'_def)
    then show ?thesis unfolding h_def [symmetric] r using ih s(2) t1(3) by simp
  qed
qed

subsection \<open>A sequence of inserts\<close>

lemma tinv_new: "tinv (BplusTree_new u) (Lf 1 0 [])"
proof -
  have pg: "pager (BplusTree_new u) = [PHeader 1 1, PNode (Node u 1)]"
    by (simp add: BplusTree_new_def save_header_def save_def)
  have "nmatch (Node u 1) 1 0 [] []"
    using wf_node_Node [of u 1] Node_children [of _ u 1]
    by (simp add: nmatch_def Node_fields)
  then show ?thesis
    by (simp add: tinv_def top_def pg) (simp add: BplusTree_new_def save_header_def ORDER_def)
qed

lemma inserts_ref:
  "\<exists>t. inserts u vs = Some t \<and> tinv t (fst (ainserts vs)) \<and> hcount t = snd (ainserts vs)"
proof (induction vs rule: rev_induct)
  case Nil
  show ?case using tinv_new [of u]
    by (simp add: inserts_def ainserts_def a0_def BplusTree_new_def save_header_def)
next
  case (snoc v vs)
  then obtain t where t: "inserts u vs = Some t" "tinv t (fst (ainserts vs))"
    "hcount t = snd (ainserts vs)" by blast
  from BplusTree_insert_ref [OF t(2), of u v] obtain t' where
    t': "BplusTree_insert u v t = Some t'"
      "tinv t' (fst (ainsert (hcount t) v (fst (ainserts vs))))"
      "hcount t' = snd (ainsert (hcount t) v (fst (ainserts vs)))" by blast
  have 1: "inserts u (vs @ [v]) = Some t'" using t(1) t'(1) by (simp add: inserts_def)
  have 2: "ainserts (vs @ [v]) = ainsert (hcount t) v (fst (ainserts vs))"
    using t(3) by (simp add: ainserts_def split_beta)
  show ?case using 1 2 t'(2,3) by simp
qed

subsection \<open>Lower bound on the entries of a node\<close>

lemma minok_iff: "minok a \<longleftrightarrow> half \<le> length (aents a) \<and> kminok a"
  by (cases a) (auto simp: kminok_def)

lemma split_minok:
  assumes "kminok c" "ORDER < length (aents c)"
  shows "minok (fst (split_a q c)) \<and> minok (snd (snd (split_a q c))) \<and>
    minok (rootl q1 q2 c) \<and> minok (rootr q3 c)"
proof (cases c)
  case (Lf p r es)
  then show ?thesis using assms half_le by auto
next
  case (Nd p r es ts)
  have t: "\<And>n x (xs :: 'a atree list). x \<in> set (take n xs) \<Longrightarrow> x \<in> set xs"
    by (rule in_set_takeD)
  have d: "\<And>n x (xs :: 'a atree list). x \<in> set (drop n xs) \<Longrightarrow> x \<in> set xs"
    by (rule in_set_dropD)
  have a: "\<forall>x\<in>set ts. minok x" using Nd assms(1) by (simp add: kminok_def)
  have "\<forall>x\<in>set (take (half + 1) ts). minok x" "\<forall>x\<in>set (drop (half + 1) ts). minok x"
    using a t d by blast+
  then show ?thesis using Nd assms(2) half_le by auto
qed

lemma ains_kminok:
  "kminok a \<Longrightarrow> kminok (fst (ains h v a)) \<and> length (aents a) \<le> length (aents (fst (ains h v a)))"
proof (induction h v a rule: ains.induct)
  case (1 h v p r es)
  then show ?case by (simp add: kminok_def ins_at_def)
next
  case (2 h v p r es ts)
  let ?ps = "lpos v es"
  show ?case
  proof (cases "?ps < length ts")
    case False
    then show ?thesis using 2(2) by simp
  next
    case True
    obtain c h1 where c: "ains h v (ts ! ?ps) = (c, h1)" by (cases "ains h v (ts ! ?ps)")
    have m0: "minok (ts ! ?ps)" using 2(2) True by (simp add: kminok_def)
    then have "kminok (ts ! ?ps)" by (simp add: minok_iff)
    from 2(1) [OF True this] have ck: "kminok c" "length (aents (ts ! ?ps)) \<le> length (aents c)"
      using c by simp_all
    have mc: "minok c" using ck m0 by (simp add: minok_iff)
    have all: "\<forall>t\<in>set ts. minok t" using 2(2) by (simp add: kminok_def)
    show ?thesis
    proof (cases "ORDER < length (aents c)")
      case ov: False
      have r: "ains h v (Nd p r es ts) = (Nd p r es (ts[?ps := c]), h1)"
        using True c ov by simp
      have "\<forall>t\<in>set (ts[?ps := c]). minok t" using all mc by (auto dest!: in_update_nth)
      then show ?thesis unfolding r by (simp add: kminok_def)
    next
      case ov: True
      obtain l m rt where sp: "split_a (h1 + 1) c = (l, m, rt)" by (cases "split_a (h1 + 1) c") auto
      have r: "ains h v (Nd p r es ts) =
          (Nd p r (ins_at ?ps m es) (take ?ps ts @ l # rt # drop (?ps + 1) ts), h1 + 1)"
        using True c ov sp by simp
      have "minok l" "minok rt" using split_minok [OF ck(1) ov, of "h1 + 1"] sp by simp_all
      moreover have "\<forall>t\<in>set (take ?ps ts). minok t" "\<forall>t\<in>set (drop (?ps + 1) ts). minok t"
        using all by (auto dest: in_set_takeD in_set_dropD)
      ultimately show ?thesis unfolding r by (auto simp: kminok_def ins_at_def)
    qed
  qed
qed

lemma ainsert_kminok: "kminok a \<Longrightarrow> kminok (fst (ainsert h v a))"
proof -
  assume k: "kminok a"
  obtain c h1 where c: "ains h v a = (c, h1)" by (cases "ains h v a")
  have ck: "kminok c" using ains_kminok [OF k, of h v] c by simp
  show ?thesis
  proof (cases "ORDER < length (aents c)")
    case False
    then show ?thesis using c ck by (simp add: ainsert_def)
  next
    case True
    then show ?thesis using c split_minok [OF ck True, where ?q1.0 = "h1 + 1" and ?q2.0 = "h1 + 2" and ?q3.0 = "h1 + 2"]
      by (simp add: ainsert_def kminok_def)
  qed
qed

lemma ainserts_snoc:
  "ainserts (vs @ [v]) = ainsert (snd (ainserts vs)) v (fst (ainserts vs))"
  by (simp add: ainserts_def split_beta)

lemma ainserts_kminok: "kminok (fst (ainserts vs))"
proof (induction vs rule: rev_induct)
  case Nil
  show ?case by (simp add: ainserts_def a0_def kminok_def)
next
  case (snoc v vs)
  then show ?case unfolding ainserts_snoc by (rule ainsert_kminok)
qed

subsection \<open>Subtrees\<close>

lemma subs_self: "a \<in> set (subs a)"
  by (cases a) auto

lemma subs_kid: "s \<in> set (subs a) \<Longrightarrow> k \<in> set (akids s) \<Longrightarrow> k \<in> set (subs a)"
proof (induction a)
  case (Lf p r es)
  then show ?case by auto
next
  case (Nd p r es ts)
  from Nd.prems(1) consider "s = Nd p r es ts" | c where "c \<in> set ts" "s \<in> set (subs c)"
    by auto
  then show ?case
  proof cases
    case 1
    then have "k \<in> set ts" using Nd.prems(2) by simp
    then show ?thesis using subs_self [of k] by auto
  next
    case 2
    then have "k \<in> set (subs c)" using Nd.IH Nd.prems(2) by blast
    then show ?thesis using 2(1) by auto
  qed
qed

lemma subs_rep: "rep pg a \<Longrightarrow> s \<in> set (subs a) \<Longrightarrow> rep pg s"
  by (induction a) auto

lemma subs_cap: "cap a \<Longrightarrow> s \<in> set (subs a) \<Longrightarrow> cap s"
  by (induction a) auto

lemma subs_minok: "minok a \<Longrightarrow> s \<in> set (subs a) \<Longrightarrow> minok s"
  by (induction a) auto

lemma subs_kminok: "kminok a \<Longrightarrow> s \<in> set (subs a) \<Longrightarrow> s = a \<or> minok s"
  by (cases a) (auto simp: kminok_def dest: subs_minok)

lemma cap_aents: "cap a \<Longrightarrow> length (aents a) \<le> ORDER"
  by (cases a) auto

lemma level_subs:
  assumes "rep (pager t) a" "root_id t = apid a"
  shows "p \<in> set (level t d) \<Longrightarrow> \<exists>s\<in>set (subs a). apid s = p"
proof (induction d arbitrary: p)
  case 0
  then show ?case using assms(2) subs_self [of a] by auto
next
  case (Suc d)
  from Suc.prems have "\<exists>q n. q \<in> set (level t d) \<and>
    recover q (pager t) = Some (PNode n) \<and> p \<in> set (child_ids n)"
    by (auto split: option.splits page.splits) metis
  then obtain q n where q: "q \<in> set (level t d)"
    "recover q (pager t) = Some (PNode n)" "p \<in> set (child_ids n)"
    by blast
  from Suc.IH [OF q(1)] obtain s where s: "s \<in> set (subs a)" "apid s = q" by blast
  have "rep (pager t) s" using subs_rep [OF assms(1) s(1)] .
  from rep_top [OF this] have tp: "0 < q" "nat q < length (pager t)"
    and "\<exists>n'. pager t ! nat q = PNode n' \<and> nmatch n' q (aright s) (aents s) (map apid (akids s))"
    using s(2) by (auto simp: top_def)
  then have nm: "nmatch n q (aright s) (aents s) (map apid (akids s))"
    using q(2) by (auto simp: recover_def split: if_splits)
  show ?case
  proof (cases "akids s = []")
    case True
    have "\<forall>k < ORDER + 2. children n ! k = 0" using nm True by (simp add: nmatch_def)
    moreover have "length (children n) = ORDER + 2" "count n \<le> ORDER + 1"
      using nm by (simp_all add: nmatch_def wf_node_def)
    ultimately have "\<forall>c\<in>set (take (count n + 1) (children n)). c = 0"
      by (auto simp: in_set_conv_nth)
    then have "child_ids n = []" by (auto simp: child_ids_def filter_empty_conv)
    then show ?thesis using q(3) by simp
  next
    case False
    then have "take (count n + 1) (children n) = map apid (akids s)"
      using nm by (auto simp: nmatch_def)
    then have "p \<in> apid ` set (akids s)" using q(3) by (auto simp: child_ids_def)
    then obtain k where k: "k \<in> set (akids s)" "apid k = p" by auto
    then show ?thesis using subs_kid [OF s(1) k(1)] by blast
  qed
qed

lemma node_counts_inv:
  assumes "tinv t a" "kminok a" "p \<in> set (level t d)"
  shows "\<exists>n. recover p (pager t) = Some (PNode n) \<and> count n \<le> ORDER \<and>
     (p \<noteq> root_id t \<longrightarrow> half \<le> count n)"
proof -
  have rp: "rep (pager t) a" and ca: "cap a" and rt: "root_id t = apid a"
    using assms(1) by (simp_all add: tinv_def)
  from level_subs [OF rp rt assms(3)] obtain s where s: "s \<in> set (subs a)" "apid s = p" by blast
  from rep_top [OF subs_rep [OF rp s(1)]] obtain n where
    n: "0 < p" "nat p < length (pager t)" "pager t ! nat p = PNode n"
      "nmatch n p (aright s) (aents s) (map apid (akids s))"
    using s(2) by (auto simp: top_def)
  have c: "count n = length (aents s)" using n(4) by (simp add: nmatch_def)
  have 1: "recover p (pager t) = Some (PNode n)" using n by (simp add: recover_def)
  have 2: "count n \<le> ORDER" using cap_aents [OF subs_cap [OF ca s(1)]] c by simp
  have 3: "half \<le> count n" if "p \<noteq> root_id t"
  proof -
    have "s \<noteq> a" using that rt s(2) by auto
    then have "minok s" using subs_kminok [OF assms(2) s(1)] by simp
    then show ?thesis using c by (simp add: minok_iff)
  qed
  show ?thesis using 1 2 3 by blast
qed

text \<open>
  C1. Every sequence of \<^verbatim>\<open>insert\<close> calls on a fresh tree returns, and in the file it leaves
  every node that a traversal from the root reaches holds at most \<open>ORDER = 64\<close> entries, and at
  least \<open>(ORDER + 1) div 2 = 32\<close> when it is not the root. The sequence is arbitrary, so this
  holds after each of the calls: no count exceeds \<open>ORDER\<close> once an insert has returned.
\<close>

theorem insert_keeps_node_counts:
  "\<exists>t. inserts u vs = Some t \<and>
     (\<forall>d. \<forall>p\<in>set (level t d).
        \<exists>n. recover p (pager t) = Some (PNode n) \<and> count n \<le> ORDER \<and>
            (p \<noteq> root_id t \<longrightarrow> (ORDER + 1) div 2 \<le> count n))"
proof -
  obtain t where t: "inserts u vs = Some t" "tinv t (fst (ainserts vs))"
    using inserts_ref [of u vs] by blast
  show ?thesis
    using t(1) node_counts_inv [OF t(2) ainserts_kminok] unfolding half_def by blast
qed

subsection \<open>The entries in leaf order\<close>

lemma lpos_Cons: "lpos v (x # xs) = (if key_lt x v then Suc (lpos v xs) else 0)"
  by (simp add: lpos_def)

lemma lpos_append_all: "\<forall>x\<in>set xs. key_lt x v \<Longrightarrow> lpos v (xs @ ys) = length xs + lpos v ys"
  by (simp add: lpos_def takeWhile_append2)

lemma lpos_append_stop: "zs = [] \<or> \<not> key_lt (hd zs) v \<Longrightarrow> lpos v (ys @ zs) = lpos v ys"
proof (induction ys)
  case Nil
  then show ?case by (cases zs) (simp_all add: lpos_Cons lpos_def)
next
  case (Cons y ys)
  then show ?case by (simp add: lpos_Cons)
qed

lemma lpos_before: "i < lpos v es \<Longrightarrow> key_lt (es ! i) v"
proof (induction es arbitrary: i)
  case Nil
  then show ?case by (simp add: lpos_def)
next
  case (Cons e es)
  then show ?case by (cases i) (auto simp: lpos_Cons split: if_splits)
qed

lemma lpos_stop: "lpos v es < length es \<Longrightarrow> \<not> key_lt (es ! lpos v es) v"
  unfolding lpos_def by (rule nth_length_takeWhile)

lemma lepos_before: "i < lepos v es \<Longrightarrow> key_le (es ! i) v"
proof (induction es arbitrary: i)
  case Nil
  then show ?case by (simp add: lepos_def)
next
  case (Cons e es)
  then show ?case by (cases i) (auto simp: lepos_def split: if_splits)
qed

lemma lepos_stop: "lepos v es < length es \<Longrightarrow> \<not> key_le (es ! lepos v es) v"
  unfolding lepos_def by (rule nth_length_takeWhile)

lemma ins_at_append_mid:
  "q \<le> length ys \<Longrightarrow> ins_at (length xs + q) v (xs @ ys @ zs) = xs @ ins_at q v ys @ zs"
  by (simp add: ins_at_def)

lemma set_ins_at: "set (ins_at q v xs) = insert v (set xs)"
proof -
  have "set (take q xs) \<union> set (drop q xs) = set xs"
    by (metis append_take_drop_id set_append)
  then show ?thesis by (auto simp: ins_at_def)
qed

lemma hd_ins_at: "0 < q \<Longrightarrow> xs \<noteq> [] \<Longrightarrow> hd (ins_at q v xs) = hd xs"
  by (cases xs; cases q) (simp_all add: ins_at_def)

lemma ins_at_nonempty: "ins_at q v xs \<noteq> []"
  by (simp add: ins_at_def)

lemma nth_ins_at:
  "j \<le> length es \<Longrightarrow>
   ins_at j m es ! i = (if i < j then es ! i else if i = j then m else es ! (i - 1))"
proof -
  assume j: "j \<le> length es"
  then have lt: "length (take j es) = j" by simp
  show ?thesis
  proof (cases "i < j")
    case True
    then show ?thesis using j by (simp add: ins_at_def nth_append)
  next
    case nl: False
    show ?thesis
    proof (cases "i = j")
      case True
      then show ?thesis using j by (simp add: ins_at_def nth_append)
    next
      case False
      then have "j < i" using nl by simp
      then obtain d where d: "i = Suc (j + d)" using less_imp_Suc_add by blast
      show ?thesis unfolding d using j by (simp add: ins_at_def nth_append)
    qed
  qed
qed

lemma nth_kids_split:
  "j < length ts \<Longrightarrow>
   (take j ts @ l # rt # drop (Suc j) ts) ! k =
     (if k < j then ts ! k else if k = j then l else if k = Suc j then rt else ts ! (k - 1))"
proof -
  assume j: "j < length ts"
  show ?thesis
  proof (cases "k \<le> Suc j")
    case True
    then consider "k < j" | "k = j" | "k = Suc j" by linarith
    then show ?thesis using j by cases (simp_all add: nth_append)
  next
    case False
    then have "Suc j < k" by simp
    then obtain d where d: "k = Suc (Suc j + d)" using less_imp_Suc_add by blast
    show ?thesis unfolding d using j by (simp add: nth_append)
  qed
qed

lemma ksorted_ins_at: "ksorted xs \<Longrightarrow> ksorted (ins_at (lpos v xs) v xs)"
proof (induction xs)
  case Nil
  then show ?case by (simp add: ksorted_def ins_at_def lpos_def)
next
  case (Cons x xs)
  show ?case
  proof (cases "key_lt x v")
    case True
    have 1: "ins_at (lpos v (x # xs)) v (x # xs) = x # ins_at (lpos v xs) v xs"
      using True by (simp add: lpos_Cons ins_at_def)
    have "ksorted xs" "\<forall>y\<in>set xs. fst x \<le> fst y"
      using Cons.prems by (auto simp: ksorted_def)
    then show ?thesis unfolding 1 using Cons.IH True
      by (auto simp: ksorted_def set_ins_at key_lt_def)
  next
    case False
    have 1: "ins_at (lpos v (x # xs)) v (x # xs) = v # x # xs"
      using False by (simp add: lpos_Cons ins_at_def)
    have "\<forall>y\<in>set xs. fst x \<le> fst y" using Cons.prems by (auto simp: ksorted_def)
    then show ?thesis unfolding 1 using Cons.prems False
      by (fastforce simp: ksorted_def key_lt_def)
  qed
qed

lemma concat_nth_split:
  "i < length ts \<Longrightarrow>
   concat (map f ts) = concat (map f (take i ts)) @ f (ts ! i) @ concat (map f (drop (Suc i) ts))"
proof -
  assume "i < length ts"
  then have "ts = take i ts @ ts ! i # drop (Suc i) ts" by (rule id_take_nth_drop)
  then have "concat (map f ts) = concat (map f (take i ts @ ts ! i # drop (Suc i) ts))" by simp
  then show ?thesis by simp
qed

lemma ksorted_append: "ksorted (xs @ ys) \<longleftrightarrow>
   ksorted xs \<and> ksorted ys \<and> (\<forall>x\<in>set xs. \<forall>y\<in>set ys. fst x \<le> fst y)"
  by (auto simp: ksorted_def sorted_append)

subsection \<open>Splitting keeps the order\<close>

lemma split_a_ord:
  assumes "ord c" "ORDER < length (aents c)" "split_a q c = (l, m, rt)"
  shows "ord l \<and> ord rt \<and> sep_ok m rt \<and> lents l \<noteq> [] \<and> lents l @ lents rt = lents c \<and>
     m = aents c ! half"
proof (cases c)
  case (Lf p r es)
  have h: "half \<le> ORDER" "0 < half" by (rule half_le)+
  have "drop half es \<noteq> []" "take half es \<noteq> []" "hd (drop half es) = es ! half"
    using assms(2) Lf h by (auto simp: hd_drop_conv_nth)
  then show ?thesis using assms(3) Lf by (auto simp: sep_ok_def)
next
  case (Nd p r es ts)
  have h: "half \<le> ORDER" "0 < half" by (rule half_le)+
  have les: "ORDER < length es" using assms(2) Nd by simp
  have lts: "length ts = length es + 1" and ko: "\<forall>t\<in>set ts. ord t"
    and sp: "\<forall>i<length es. sep_ok (es ! i) (ts ! (i + 1))"
    using assms(1) Nd by simp_all
  have l: "l = Nd p r (take half es) (take (half + 1) ts)"
    and rt: "rt = Nd q 0 (drop (half + 1) es) (drop (half + 1) ts)"
    and m: "m = es ! half"
    using assms(3) Nd by auto
  have ol: "ord l"
  proof -
    have "\<forall>t\<in>set (take (half + 1) ts). ord t" using ko by (auto dest: in_set_takeD)
    moreover have "length (take (half + 1) ts) = length (take half es) + 1"
      using lts les h by simp
    moreover have "\<forall>i<length (take half es).
        sep_ok (take half es ! i) (take (half + 1) ts ! (i + 1))"
      using sp les h by simp
    ultimately show ?thesis unfolding l by simp
  qed
  have ort: "ord rt"
  proof -
    have "\<forall>t\<in>set (drop (half + 1) ts). ord t" using ko by (auto dest: in_set_dropD)
    moreover have "length (drop (half + 1) ts) = length (drop (half + 1) es) + 1"
      using lts les h by simp
    moreover have "\<forall>i<length (drop (half + 1) es).
        sep_ok (drop (half + 1) es ! i) (drop (half + 1) ts ! (i + 1))"
    proof (intro allI impI)
      fix i assume i: "i < length (drop (half + 1) es)"
      then have "half + 1 + i < length es" by simp
      then have "sep_ok (es ! (half + 1 + i)) (ts ! (half + 1 + i + 1))" using sp by blast
      then show "sep_ok (drop (half + 1) es ! i) (drop (half + 1) ts ! (i + 1))"
        using i lts by (simp add: add.assoc)
    qed
    ultimately show ?thesis unfolding rt by simp
  qed
  have "half < length es" using les h by simp
  then have s1: "sep_ok (es ! half) (ts ! (half + 1))" using sp by blast
  have dr: "drop (half + 1) ts = ts ! (half + 1) # drop (half + 2) ts"
    using lts les h by (simp add: Cons_nth_drop_Suc)
  have sm: "sep_ok m rt"
    using s1 unfolding rt m sep_ok_def lents.simps dr by simp
  have "0 < length es" using les by linarith
  then have "sep_ok (es ! 0) (ts ! (0 + 1))" using sp by blast
  then have s0: "sep_ok (es ! 0) (ts ! 1)" by simp
  have "1 < length (take (half + 1) ts)" using lts les h by simp
  then have "take (half + 1) ts ! 1 \<in> set (take (half + 1) ts)" by (rule nth_mem)
  then have "ts ! 1 \<in> set (take (half + 1) ts)" using h by simp
  then have ne: "lents l \<noteq> []" using s0 unfolding l by (auto simp: sep_ok_def)
  have ap: "lents l @ lents rt = lents c"
    unfolding l rt Nd lents.simps
    by (metis append_take_drop_id concat_append map_append)
  show ?thesis using ol ort sm ne ap m Nd by simp
qed

lemma rootlr_ord:
  "ord (rootl q1 q2 c) = ord (fst (split_a q c))"
  "ord (rootr q3 c) = ord (snd (snd (split_a q c)))"
  "lents (rootl q1 q2 c) = lents (fst (split_a q c))"
  "lents (rootr q3 c) = lents (snd (snd (split_a q c)))"
  by (cases c; simp)+

subsection \<open>An insert puts the entry where the leaf order wants it\<close>

lemma seps_update:
  assumes "\<forall>i<length es. sep_ok (es ! i) (ts ! (i + 1))" "0 < j \<longrightarrow> sep_ok (es ! (j - 1)) c"
    "j < length ts"
  shows "\<forall>i<length es. sep_ok (es ! i) (ts[j := c] ! (i + 1))"
proof (intro allI impI)
  fix i assume i: "i < length es"
  show "sep_ok (es ! i) (ts[j := c] ! (i + 1))"
  proof (cases "i + 1 = j")
    case True
    then show ?thesis using assms(2,3) by auto
  next
    case False
    then show ?thesis using assms(1) i by simp
  qed
qed

lemma seps_split:
  assumes "\<forall>i<length es. sep_ok (es ! i) (ts ! (i + 1))" "length ts = length es + 1"
    "j \<le> length es" "0 < j \<longrightarrow> sep_ok (es ! (j - 1)) l" "sep_ok m rt"
  shows "\<forall>i<length (ins_at j m es).
     sep_ok (ins_at j m es ! i) ((take j ts @ l # rt # drop (j + 1) ts) ! (i + 1))"
proof (intro allI impI)
  fix i assume "i < length (ins_at j m es)"
  then have i: "i < length es + 1" using assms(3) by (simp add: ins_at_def)
  have jt: "j < length ts" using assms(2,3) by simp
  consider "i + 1 < j" | "i + 1 = j" | "i = j" | "j < i" by linarith
  then show "sep_ok (ins_at j m es ! i) ((take j ts @ l # rt # drop (j + 1) ts) ! (i + 1))"
  proof cases
    case 1
    then show ?thesis using assms(1,3) by (simp add: nth_ins_at nth_kids_split [OF jt])
  next
    case 2
    then show ?thesis using assms(3,4) by (auto simp: nth_ins_at nth_kids_split [OF jt])
  next
    case 3
    then show ?thesis using assms(3,5) by (simp add: nth_ins_at nth_kids_split [OF jt])
  next
    case 4
    then have "sep_ok (es ! (i - 1)) (ts ! i)" using assms(1) i by (cases i) auto
    then show ?thesis using 4 assms(3) by (simp add: nth_ins_at nth_kids_split [OF jt])
  qed
qed

lemma ains_lents:
  "ord a \<Longrightarrow> ksorted (lents a) \<Longrightarrow>
   lents (fst (ains h v a)) = ins_at (lpos v (lents a)) v (lents a) \<and> ord (fst (ains h v a))"
proof (induction h v a rule: ains.induct)
  case (1 h v p r es)
  then show ?case by simp
next
  case (2 h v p r es ts)
  let ?ps = "lpos v es"
  have lts: "length ts = length es + 1" and ko: "\<forall>t\<in>set ts. ord t"
    and sp: "\<forall>i<length es. sep_ok (es ! i) (ts ! (i + 1))"
    using 2(2) by simp_all
  have ps: "?ps \<le> length es" "?ps < length ts" using lpos_le [of v es] lts by simp_all
  define X where "X = concat (map lents (take ?ps ts))"
  define Y where "Y = lents (ts ! ?ps)"
  define Z where "Z = concat (map lents (drop (Suc ?ps) ts))"
  have e: "lents (Nd p r es ts) = X @ Y @ Z"
    unfolding X_def Y_def Z_def lents.simps using ps(2) by (rule concat_nth_split)
  have ks: "ksorted (X @ Y @ Z)" using 2(3) e by simp
  have ksY: "ksorted Y" using ks by (simp add: ksorted_append)
  have oc0: "ord (ts ! ?ps)" using ko ps(2) by simp
  have prev: "Y \<noteq> [] \<and> key_lt (hd Y) v" if "0 < ?ps"
  proof -
    have "key_lt (es ! (?ps - 1)) v" using that by (intro lpos_before) simp
    moreover have "sep_ok (es ! (?ps - 1)) (ts ! ?ps)" using sp that ps(1) by (cases ?ps) auto
    ultimately show ?thesis by (simp add: sep_ok_def Y_def key_lt_def)
  qed
  have F1: "\<forall>x\<in>set X. key_lt x v"
  proof (cases "0 < ?ps")
    case False
    then show ?thesis by (simp add: X_def)
  next
    case True
    from prev [OF True] have y: "Y \<noteq> []" "key_lt (hd Y) v" by simp_all
    have "\<forall>x\<in>set X. fst x \<le> fst (hd Y)"
      using ks y(1) by (auto simp: ksorted_append)
    then show ?thesis using y(2) by (auto simp: key_lt_def)
  qed
  have F2: "Z = [] \<or> \<not> key_lt (hd Z) v"
  proof (cases "?ps < length es")
    case False
    then have "drop (Suc ?ps) ts = []" using lts by simp
    then show ?thesis by (simp add: Z_def)
  next
    case True
    have st: "\<not> key_lt (es ! ?ps) v" using True by (rule lpos_stop)
    have so: "sep_ok (es ! ?ps) (ts ! (?ps + 1))" using sp True by blast
    have "drop (Suc ?ps) ts = ts ! (?ps + 1) # drop (?ps + 2) ts"
      using True lts by (simp add: Cons_nth_drop_Suc)
    then have "hd Z = hd (lents (ts ! (?ps + 1)))"
      using so by (simp add: Z_def sep_ok_def)
    then show ?thesis using st so by (simp add: sep_ok_def key_lt_def)
  qed
  have gp: "lpos v (X @ Y @ Z) = length X + lpos v Y"
    using lpos_append_all [OF F1] lpos_append_stop [OF F2] by simp
  obtain c h1 where c: "ains h v (ts ! ?ps) = (c, h1)" by (cases "ains h v (ts ! ?ps)")
  from 2(1) [OF ps(2) oc0 ksY [unfolded Y_def]]
  have ih: "lents c = ins_at (lpos v Y) v Y" "ord c"
    using c by (simp_all add: Y_def)
  have "ins_at (length X + lpos v Y) v (X @ Y @ Z) = X @ ins_at (lpos v Y) v Y @ Z"
    by (rule ins_at_append_mid) (rule lpos_le)
  then have res:
    "X @ lents c @ Z = ins_at (lpos v (lents (Nd p r es ts))) v (lents (Nd p r es ts))"
    unfolding e gp ih(1) by simp
  have hdc: "sep_ok (es ! (?ps - 1)) c" if "0 < ?ps"
  proof -
    from prev [OF that] have y: "Y \<noteq> []" "key_lt (hd Y) v" by simp_all
    have "0 < lpos v Y" using y by (cases Y) (simp_all add: lpos_Cons)
    then have "hd (lents c) = hd Y" unfolding ih(1) using y(1) by (rule hd_ins_at)
    moreover have "sep_ok (es ! (?ps - 1)) (ts ! ?ps)" using sp that ps(1) by (cases ?ps) auto
    ultimately show ?thesis by (simp add: sep_ok_def ih(1) ins_at_nonempty Y_def)
  qed
  have xz: "concat (map lents (take ?ps ts)) = X" "concat (map lents (drop (Suc ?ps) ts)) = Z"
    by (simp_all add: X_def Z_def)
  show ?case
  proof (cases "ORDER < length (aents c)")
    case False
    have r: "ains h v (Nd p r es ts) = (Nd p r es (ts[?ps := c]), h1)"
      using ps(2) c False by simp
    have l1: "lents (Nd p r es (ts[?ps := c])) = X @ lents c @ Z"
      using ps(2) by (simp add: upd_conv_take_nth_drop xz)
    have "\<forall>t\<in>set (ts[?ps := c]). ord t" using ko ih(2) by (auto dest!: in_update_nth)
    moreover have "\<forall>i<length es. sep_ok (es ! i) (ts[?ps := c] ! (i + 1))"
      using seps_update [OF sp _ ps(2), of c] hdc by blast
    ultimately have "ord (Nd p r es (ts[?ps := c]))" using lts by simp
    then show ?thesis unfolding r fst_conv l1 res by simp
  next
    case True
    obtain l m rt where spa: "split_a (h1 + 1) c = (l, m, rt)"
      by (cases "split_a (h1 + 1) c") auto
    let ?ts = "take ?ps ts @ l # rt # drop (?ps + 1) ts"
    have r: "ains h v (Nd p r es ts) = (Nd p r (ins_at ?ps m es) ?ts, h1 + 1)"
      using ps(2) c True spa by simp
    from split_a_ord [OF ih(2) True spa]
    have so: "ord l" "ord rt" "sep_ok m rt" "lents l \<noteq> []" "lents l @ lents rt = lents c"
      by blast+
    have l1: "lents (Nd p r (ins_at ?ps m es) ?ts) = X @ lents c @ Z"
      using so(5) by (simp add: xz)
    have hl: "sep_ok (es ! (?ps - 1)) l" if "0 < ?ps"
    proof -
      have "hd (lents l) = hd (lents c)" using so(4,5) by (metis hd_append2)
      then show ?thesis using hdc [OF that] so(4) by (simp add: sep_ok_def)
    qed
    have "\<forall>t\<in>set ?ts. ord t" using ko so(1,2) by (auto dest: in_set_takeD in_set_dropD)
    moreover have "\<forall>i<length (ins_at ?ps m es). sep_ok (ins_at ?ps m es ! i) (?ts ! (i + 1))"
      using seps_split [OF sp lts ps(1) _ so(3), of l] hl by blast
    moreover have "length ?ts = length (ins_at ?ps m es) + 1"
      using lts ps by (simp add: ins_at_def)
    ultimately have "ord (Nd p r (ins_at ?ps m es) ?ts)" by simp
    then show ?thesis unfolding r fst_conv l1 res by simp
  qed
qed

lemma ainsert_lents:
  assumes "ord a" "ksorted (lents a)"
  shows "lents (fst (ainsert h v a)) = ins_at (lpos v (lents a)) v (lents a) \<and>
     ord (fst (ainsert h v a))"
proof -
  obtain c h1 where c: "ains h v a = (c, h1)" by (cases "ains h v a")
  have ih: "lents c = ins_at (lpos v (lents a)) v (lents a)" "ord c"
    using ains_lents [OF assms, of h v] c by simp_all
  show ?thesis
  proof (cases "ORDER < length (aents c)")
    case False
    then show ?thesis using c ih by (simp add: ainsert_def)
  next
    case True
    obtain l m rt where spa: "split_a (h1 + 2) c = (l, m, rt)"
      by (cases "split_a (h1 + 2) c") auto
    from split_a_ord [OF ih(2) True spa]
    have so: "ord l" "ord rt" "sep_ok m rt" "lents l \<noteq> []" "lents l @ lents rt = lents c"
      "m = aents c ! half"
      by blast+
    let ?l = "rootl (h1 + 1) (h1 + 2) c" and ?r = "rootr (h1 + 2) c"
    have eq: "ord ?l" "ord ?r" "lents ?l = lents l" "lents ?r = lents rt"
      using rootlr_ord [where c = c and q = "h1 + 2"] spa so(1,2) by simp_all
    have r: "ainsert h v a = (Nd (apid c) (aright c) [m] [?l, ?r], h1 + 2)"
      using c True so(6) by (simp add: ainsert_def)
    have "sep_ok m ?r" using so(3) eq(4) by (simp add: sep_ok_def)
    then have "ord (Nd (apid c) (aright c) [m] [?l, ?r])" using eq(1,2) by simp
    moreover have "lents (Nd (apid c) (aright c) [m] [?l, ?r]) = lents c"
      using eq(3,4) so(5) by simp
    ultimately show ?thesis unfolding r fst_conv using ih(1) by simp
  qed
qed

lemma ainserts_lents:
  "ord (fst (ainserts vs)) \<and> ksorted (lents (fst (ainserts vs))) \<and>
   set (lents (fst (ainserts vs))) = set vs"
proof (induction vs rule: rev_induct)
  case Nil
  show ?case by (simp add: ainserts_def a0_def ksorted_def)
next
  case (snoc v vs)
  let ?a = "fst (ainserts vs)"
  from ainsert_lents [of ?a "snd (ainserts vs)" v] snoc
  have "lents (fst (ainserts (vs @ [v]))) = ins_at (lpos v (lents ?a)) v (lents ?a)"
    "ord (fst (ainserts (vs @ [v])))"
    unfolding ainserts_snoc by simp_all
  then show ?case using snoc ksorted_ins_at [of "lents ?a" v] by (simp add: set_ins_at)
qed

subsection \<open>The leaves and their right pointers\<close>

lemma LP_Nd: "LP (Nd p r es ts) = (\<Union>t\<in>set ts. LP t)"
  by (auto simp: LP_def)

lemma LR_Nd: "LR (Nd p r es ts) = (\<Union>t\<in>set ts. LR t)"
  by (auto simp: LR_def)

lemma LP_Lf: "LP (Lf p r es) = (if es = [] then {} else {p})"
  by (auto simp: LP_def)

lemma LR_Lf: "LR (Lf p r es) = {r}"
  by (simp add: LR_def)

lemma leaves_append_sets:
  assumes "leaves x @ leaves y = leaves c"
  shows "LP x \<union> LP y = LP c" "LR x \<union> LR y = LR c"
proof -
  have "set (leaves c) = set (leaves x) \<union> set (leaves y)"
    using assms by (metis set_append)
  then show "LP x \<union> LP y = LP c" "LR x \<union> LR y = LR c"
    by (auto simp: LP_def LR_def)
qed

lemma split_a_leaves:
  assumes "ORDER < length (aents c)" "split_a q c = (l, m, rt)"
  shows "LP c \<subseteq> LP l \<union> LP rt \<and> LR l \<union> LR rt \<subseteq> LR c \<union> LP l \<union> LP rt"
proof (cases c)
  case (Lf p r es)
  have h: "half \<le> ORDER" "0 < half" by (rule half_le)+
  have "drop half es \<noteq> []" "take half es \<noteq> []" using assms(1) Lf h by auto
  then show ?thesis using assms(2) Lf by (auto simp: LP_Lf LR_Lf)
next
  case (Nd p r es ts)
  have "concat (map leaves (take (half + 1) ts)) @ concat (map leaves (drop (half + 1) ts)) =
      concat (map leaves ts)"
    by (metis append_take_drop_id concat_append map_append)
  then have "leaves l @ leaves rt = leaves c"
    using assms(2) Nd by auto
  from leaves_append_sets [OF this] show ?thesis by auto
qed

lemma rootlr_leaves_Nd:
  "leaves (rootl q1 q2 (Nd p r es ts)) @ leaves (rootr q3 (Nd p r es ts)) = leaves (Nd p r es ts)"
proof -
  have "concat (map leaves (take (half + 1) ts)) @ concat (map leaves (drop (half + 1) ts)) =
      concat (map leaves ts)"
    by (metis append_take_drop_id concat_append map_append)
  then show ?thesis by simp
qed

lemma kids_sets_at:
  assumes "j < length ts"
  shows "set ts = set (take j ts) \<union> {ts ! j} \<union> set (drop (Suc j) ts)"
proof -
  have "ts = take j ts @ ts ! j # drop (Suc j) ts" using assms by (rule id_take_nth_drop)
  then have "set ts = set (take j ts @ ts ! j # drop (Suc j) ts)" by simp
  then show ?thesis by simp
qed

lemma ains_leaves:
  "LP a \<subseteq> LP (fst (ains h v a)) \<and> LR (fst (ains h v a)) \<subseteq> LR a \<union> LP (fst (ains h v a))"
proof (induction h v a rule: ains.induct)
  case (1 h v p r es)
  then show ?case by (simp add: LP_Lf LR_Lf ins_at_nonempty)
next
  case (2 h v p r es ts)
  let ?ps = "lpos v es"
  show ?case
  proof (cases "?ps < length ts")
    case False
    then show ?thesis by simp
  next
    case True
    obtain c h1 where c: "ains h v (ts ! ?ps) = (c, h1)" by (cases "ains h v (ts ! ?ps)")
    have ih: "LP (ts ! ?ps) \<subseteq> LP c" "LR c \<subseteq> LR (ts ! ?ps) \<union> LP c"
      using 2 [OF True] c by simp_all
    define A where "A = set (take ?ps ts) \<union> set (drop (Suc ?ps) ts)"
    have st: "set ts = A \<union> {ts ! ?ps}" using kids_sets_at [OF True] by (auto simp: A_def)
    define UA where "UA = (\<Union>t\<in>A. LP t)"
    define RA where "RA = (\<Union>t\<in>A. LR t)"
    have P0: "LP (Nd p r es ts) = UA \<union> LP (ts ! ?ps)"
      and R0: "LR (Nd p r es ts) = RA \<union> LR (ts ! ?ps)"
      unfolding LP_Nd LR_Nd st UA_def RA_def by (simp_all add: Un_ac)
    show ?thesis
    proof (cases "ORDER < length (aents c)")
      case False
      have r: "ains h v (Nd p r es ts) = (Nd p r es (ts[?ps := c]), h1)"
        using True c False by simp
      have s1: "set (ts[?ps := c]) = A \<union> {c}"
        using True by (auto simp: upd_conv_take_nth_drop A_def)
      have P1: "LP (Nd p r es (ts[?ps := c])) = UA \<union> LP c"
        and R1: "LR (Nd p r es (ts[?ps := c])) = RA \<union> LR c"
        unfolding LP_Nd LR_Nd s1 UA_def RA_def by (simp_all add: Un_ac)
      show ?thesis unfolding r fst_conv P0 R0 P1 R1 using ih by blast
    next
      case ov: True
      obtain l m rt where spa: "split_a (h1 + 1) c = (l, m, rt)"
        by (cases "split_a (h1 + 1) c") auto
      let ?ts = "take ?ps ts @ l # rt # drop (?ps + 1) ts"
      have r: "ains h v (Nd p r es ts) = (Nd p r (ins_at ?ps m es) ?ts, h1 + 1)"
        using True c ov spa by simp
      have s1: "set ?ts = A \<union> {l, rt}" by (auto simp: A_def)
      have P1: "LP (Nd p r (ins_at ?ps m es) ?ts) = UA \<union> (LP l \<union> LP rt)"
        and R1: "LR (Nd p r (ins_at ?ps m es) ?ts) = RA \<union> (LR l \<union> LR rt)"
        unfolding LP_Nd LR_Nd s1 UA_def RA_def by (simp_all add: Un_ac)
      from split_a_leaves [OF ov spa]
      have sl: "LP c \<subseteq> LP l \<union> LP rt" "LR l \<union> LR rt \<subseteq> LR c \<union> LP l \<union> LP rt" by blast+
      show ?thesis unfolding r fst_conv P0 R0 P1 R1 using ih sl by blast
    qed
  qed
qed

lemma ainsert_rvi:
  assumes "rvi a" "aright a = 0"
  shows "rvi (fst (ainsert h v a)) \<and> aright (fst (ainsert h v a)) = 0"
proof -
  obtain c h1 where c: "ains h v a = (c, h1)" by (cases "ains h v a")
  have rc: "aright c = 0" using ains_props [of h v a] c assms(2) by simp
  have "LP a \<subseteq> LP c" "LR c \<subseteq> LR a \<union> LP c" using ains_leaves [of a h v] c by simp_all
  then have vc: "rvi c" using assms(1) unfolding rvi_def by blast
  show ?thesis
  proof (cases "ORDER < length (aents c)")
    case False
    then show ?thesis using c vc rc by (simp add: ainsert_def)
  next
    case True
    let ?l = "rootl (h1 + 1) (h1 + 2) c" and ?r = "rootr (h1 + 2) c"
    have r: "ainsert h v a = (Nd (apid c) (aright c) [aents c ! half] [?l, ?r], h1 + 2)"
      using c True by (simp add: ainsert_def)
    have "rvi (Nd (apid c) (aright c) [aents c ! half] [?l, ?r])"
    proof (cases c)
      case (Lf p r' es)
      have h: "half \<le> ORDER" "0 < half" by (rule half_le)+
      have "drop half es \<noteq> []" using True Lf h by auto
      then show ?thesis unfolding Lf by (simp add: rvi_def LP_Nd LR_Nd LP_Lf LR_Lf)
    next
      case (Nd p r' es ts)
      have "LP ?l \<union> LP ?r = LP c" "LR ?l \<union> LR ?r = LR c"
        using leaves_append_sets [OF rootlr_leaves_Nd [of "h1 + 1" "h1 + 2" p r' es ts "h1 + 2"]]
        unfolding Nd by simp_all
      then show ?thesis using vc by (simp add: rvi_def LP_Nd LR_Nd)
    qed
    then show ?thesis unfolding r fst_conv using rc by simp
  qed
qed

lemma ainserts_rvi: "rvi (fst (ainserts vs)) \<and> aright (fst (ainserts vs)) = 0"
proof (induction vs rule: rev_induct)
  case Nil
  show ?case by (simp add: ainserts_def a0_def rvi_def LP_Lf LR_Lf)
next
  case (snoc v vs)
  then show ?case unfolding ainserts_snoc using ainsert_rvi by blast
qed

lemma leaves_subs: "l \<in> set (leaves a) \<Longrightarrow> l \<in> set (subs a)"
  by (induction a) auto

lemma leaves_Lf: "l \<in> set (leaves a) \<Longrightarrow> \<exists>p r es. l = Lf p r es"
  by (induction a) auto

lemma leaves_lents: "l \<in> set (leaves a) \<Longrightarrow> set (aents l) \<subseteq> set (lents a)"
  by (induction a) auto

lemma leaves_kid: "t \<in> set (akids a) \<Longrightarrow> l \<in> set (leaves t) \<Longrightarrow> l \<in> set (leaves a)"
  by (cases a) auto

lemma lents_kid: "t \<in> set (akids a) \<Longrightarrow> set (lents t) \<subseteq> set (lents a)"
  by (cases a) auto

subsection \<open>\<^verbatim>\<open>find\<close> on the tree of a file\<close>

lemma ksorted_nth_mono: "ksorted es \<Longrightarrow> i \<le> j \<Longrightarrow> j < length es \<Longrightarrow> fst (es ! i) \<le> fst (es ! j)"
  using sorted_nth_mono [of "map fst es" i j] by (simp add: ksorted_def)

lemma ksorted_hd_le: "ksorted zs \<Longrightarrow> z \<in> set zs \<Longrightarrow> fst (hd zs) \<le> fst z"
  by (cases zs) (auto simp: ksorted_def)

lemma ksorted_first_ge:
  assumes "ksorted es" "e \<in> set es" "fst e = fst v"
  shows "lpos v es < length es \<and> fst (es ! lpos v es) = fst v"
proof -
  have nl: "\<not> key_lt e v" using assms(3) by (simp add: key_lt_def)
  have "takeWhile (\<lambda>e. key_lt e v) es \<noteq> es"
    using assms(2) nl by (auto simp: takeWhile_eq_all_conv)
  then have lt: "lpos v es < length es"
    unfolding lpos_def using length_takeWhile_le [of "\<lambda>e. key_lt e v" es]
    by (metis le_neq_implies_less length_append self_append_conv takeWhile_dropWhile_id
        length_0_conv add_diff_cancel_left' diff_is_0_eq' less_or_eq_imp_le)
  obtain j where j: "j < length es" "es ! j = e" using assms(2) by (auto simp: in_set_conv_nth)
  have "lpos v es \<le> j"
  proof (rule ccontr)
    assume "\<not> lpos v es \<le> j"
    then have "key_lt (es ! j) v" by (intro lpos_before) simp
    then show False using nl j(2) by simp
  qed
  then have "fst (es ! lpos v es) \<le> fst v"
    using ksorted_nth_mono [OF assms(1) _ j(1)] j(2) assms(3) by simp
  moreover have "fst v \<le> fst (es ! lpos v es)"
    using lpos_stop [OF lt] by (simp add: key_lt_def)
  ultimately show ?thesis using lt by simp
qed

lemma descend_keeps_key:
  assumes o: "ord (Nd p r es ts)" and ks: "ksorted (lents (Nd p r es ts))"
    and e: "e \<in> set (lents (Nd p r es ts))" "fst e = fst v"
  shows "\<exists>e'\<in>set (lents (ts ! lepos v es)). fst e' = fst v"
proof -
  let ?j = "lepos v es"
  have lts: "length ts = length es + 1"
    and sp: "\<forall>i<length es. sep_ok (es ! i) (ts ! (i + 1))"
    using o by simp_all
  have j: "?j \<le> length es" "?j < length ts" using lepos_le [of v es] lts by simp_all
  define X where "X = concat (map lents (take ?j ts))"
  define Y where "Y = lents (ts ! ?j)"
  define Z where "Z = concat (map lents (drop (Suc ?j) ts))"
  have eq: "lents (Nd p r es ts) = X @ Y @ Z"
    unfolding X_def Y_def Z_def lents.simps using j(2) by (rule concat_nth_split)
  have kx: "ksorted (X @ Y @ Z)" using ks eq by simp
  have "e \<in> set (X @ Y @ Z)" using e(1) unfolding eq .
  then consider "e \<in> set Y" | "e \<in> set Z" | "e \<in> set X" by auto
  then show ?thesis
  proof cases
    case 1
    then show ?thesis using e(2) unfolding Y_def by blast
  next
    case 2
    have jl: "?j < length es"
    proof (rule ccontr)
      assume "\<not> ?j < length es"
      then have "drop (Suc ?j) ts = []" using lts by simp
      then show False using 2 by (simp add: Z_def)
    qed
    have st: "fst v < fst (es ! ?j)" using lepos_stop [OF jl] by (simp add: key_le_def)
    have so: "sep_ok (es ! ?j) (ts ! (?j + 1))" using sp jl by blast
    have "drop (Suc ?j) ts = ts ! (?j + 1) # drop (?j + 2) ts"
      using jl lts by (simp add: Cons_nth_drop_Suc)
    then have "hd Z = hd (lents (ts ! (?j + 1)))"
      using so by (simp add: Z_def sep_ok_def)
    then have "fst (hd Z) = fst (es ! ?j)" using so by (simp add: sep_ok_def)
    moreover have "fst (hd Z) \<le> fst e"
      using kx 2 by (intro ksorted_hd_le) (simp_all add: ksorted_append)
    ultimately show ?thesis using st e(2) by simp
  next
    case 3
    have j0: "0 < ?j"
    proof (rule ccontr)
      assume "\<not> 0 < ?j"
      then show False using 3 by (simp add: X_def)
    qed
    have "key_le (es ! (?j - 1)) v" using j0 by (intro lepos_before) simp
    moreover have so: "sep_ok (es ! (?j - 1)) (ts ! ?j)" using sp j0 j(1) by (cases ?j) auto
    ultimately have y: "Y \<noteq> []" "fst (hd Y) \<le> fst v"
      by (simp_all add: sep_ok_def Y_def key_le_def)
    have "hd Y \<in> set Y" using y(1) by simp
    then have "fst e \<le> fst (hd Y)" using kx 3 by (auto simp: ksorted_append)
    then have "fst (hd Y) = fst v" using y(2) e(2) by simp
    then show ?thesis using \<open>hd Y \<in> set Y\<close> unfolding Y_def by blast
  qed
qed

lemma find_helper_ref:
  fixes t :: "'k::linorder bptree"
  shows "rep (pager t) a \<Longrightarrow> ord a \<Longrightarrow> ksorted (lents a) \<Longrightarrow> rok (pager t) K a \<Longrightarrow>
     fst ` set (lents a) \<subseteq> K \<Longrightarrow> pager t ! nat (apid a) = PNode n \<Longrightarrow>
     \<exists>it. find_helper u t v n = Some it \<and>
       (fst v \<in> fst ` set (lents a) \<longrightarrow>
          page_id (current_pos it) \<noteq> - 1 \<and> deref it \<in> set (lents a) \<and>
          fst (deref it) = fst v) \<and>
       (fst v \<notin> K \<longrightarrow> it = end_iter u \<or> fst (deref it) \<noteq> fst v)"
proof (induction a arbitrary: n)
  case (Lf p r es)
  have tp: "0 < p" "nat p < length (pager t)" and nm: "nmatch n p r es []"
    using Lf(1,6) by (auto simp: top_def)
  have lf: "is_leaf n" using nmatch_is_leaf [OF nm] by simp
  have sc: "scan_lt n v 0 = lpos v es" using nmatch_scan_lt [OF nm] .
  have cn: "count n = length es" "page_id n = p" "right n = r"
    using nm by (simp_all add: nmatch_def)
  have fh: "find_helper u t v n =
      (if lpos v es = length es
       then iter_inc u (pager t) \<lparr>index = lpos v es, current_pos = n\<rparr>
       else Some \<lparr>index = lpos v es, current_pos = n\<rparr>)"
    by (subst find_helper.simps) (simp add: lf sc cn Let_def)
  have inK: "\<forall>e\<in>set es. fst e \<in> K" using Lf(5) by auto
  show ?case
  proof (cases "lpos v es = length es")
    case False
    then have lt: "lpos v es < length es" using lpos_le [of v es] by simp
    have d: "deref \<lparr>index = lpos v es, current_pos = n\<rparr> = es ! lpos v es"
      using nmatch_data_nth [OF nm lt] by (simp add: deref_def)
    have A: "fst (es ! lpos v es) = fst v" if "fst v \<in> fst ` set (lents (Lf p r es))"
    proof -
      from that obtain e where "e \<in> set es" "fst e = fst v" by auto
      then show ?thesis using ksorted_first_ge [of es e v] Lf(3) by simp
    qed
    have B: "fst (es ! lpos v es) \<noteq> fst v" if "fst v \<notin> K"
      using inK lt that by (metis nth_mem)
    have C: "es ! lpos v es \<in> set (lents (Lf p r es))" using lt by simp
    show ?thesis unfolding fh using False d A B C cn(2) tp(1) by auto
  next
    case True
    have nA: "fst v \<notin> fst ` set (lents (Lf p r es))"
    proof
      assume "fst v \<in> fst ` set (lents (Lf p r es))"
      then obtain e where "e \<in> set es" "fst e = fst v" by auto
      then show False using ksorted_first_ge [of es e v] Lf(3) True by simp
    qed
    show ?thesis
    proof (cases "r = 0")
      case r0: True
      have "iter_inc u (pager t) \<lparr>index = lpos v es, current_pos = n\<rparr> =
          Some \<lparr>index = 0, current_pos = Node u (- 1)\<rparr>"
        using True cn r0 by (simp add: iter_inc_def)
      then show ?thesis unfolding fh using True nA by (simp add: end_iter_def)
    next
      case False
      then obtain m where m: "recover r (pager t) = Some (PNode m)" "fst (data m ! 0) \<in> K"
        using Lf(4) by (auto simp: rok_def)
      have "iter_inc u (pager t) \<lparr>index = lpos v es, current_pos = n\<rparr> =
          Some \<lparr>index = 0, current_pos = m\<rparr>"
        using True cn False m(1) by (simp add: iter_inc_def)
      then show ?thesis unfolding fh using True nA m(2) by (auto simp: deref_def)
    qed
  qed
next
  case (Nd p r es ts)
  let ?a = "Nd p r es ts"
  let ?j = "lepos v es"
  have rp: "rep (pager t) ?a" and o: "ord ?a" and ks: "ksorted (lents ?a)"
    and rk: "rok (pager t) K ?a" and sk: "fst ` set (lents ?a) \<subseteq> K"
    and pn: "pager t ! nat p = PNode n"
    using Nd(2-7) by simp_all
  have nm: "nmatch n p r es (map apid ts)" and ne: "ts \<noteq> []"
    using rp pn by (auto simp: top_def)
  have lts: "length ts = length es + 1" using o by simp
  have j: "?j < length ts" using lepos_le [of v es] lts by simp
  have nl: "\<not> is_leaf n" using nmatch_is_leaf [OF nm] ne by simp
  have sc: "scan_le n v 0 = ?j" using nmatch_scan_le [OF nm] .
  define c where "c = ts ! ?j"
  have cin: "c \<in> set ts" using j by (simp add: c_def)
  have rc: "rep (pager t) c" and oc: "ord c" using rp o cin by auto
  obtain nc where cp: "0 < apid c" "nat (apid c) < length (pager t)"
    and nc: "pager t ! nat (apid c) = PNode nc"
    using rep_top [OF rc] by (auto simp: top_def)
  have chn: "children n ! ?j = apid c"
    using nmatch_children_nth [OF nm, of ?j] ne j by (simp add: c_def)
  have rd: "read_node u t (apid c) = Some nc"
    using cp nc by (simp add: read_node_def recover_def)
  have fh: "find_helper u t v n = find_helper u t v nc"
    by (subst find_helper.simps) (simp add: nl sc chn rd)
  have eq: "lents ?a = concat (map lents (take ?j ts)) @ lents c @
      concat (map lents (drop (Suc ?j) ts))"
    unfolding c_def lents.simps using j by (rule concat_nth_split)
  have kc: "ksorted (lents c)" using ks unfolding eq by (simp add: ksorted_append)
  have rkc: "rok (pager t) K c"
    using rk cin unfolding rok_def by auto
  have skc: "fst ` set (lents c) \<subseteq> K" using sk cin by auto
  from Nd.IH [OF cin rc oc kc rkc skc nc]
  obtain it where it: "find_helper u t v nc = Some it"
    "fst v \<in> fst ` set (lents c) \<longrightarrow> page_id (current_pos it) \<noteq> - 1 \<and>
       deref it \<in> set (lents c) \<and> fst (deref it) = fst v"
    "fst v \<notin> K \<longrightarrow> it = end_iter u \<or> fst (deref it) \<noteq> fst v"
    by blast
  have sub: "set (lents c) \<subseteq> set (lents ?a)" unfolding eq by auto
  have "fst v \<in> fst ` set (lents c)" if "fst v \<in> fst ` set (lents ?a)"
  proof -
    from that obtain e where "e \<in> set (lents ?a)" "fst e = fst v"
      by (auto simp del: lents.simps)
    from descend_keeps_key [OF o ks this] show ?thesis unfolding c_def by (metis imageI)
  qed
  then show ?case unfolding fh using it sub by blast
qed

lemma rvi_rok:
  assumes "rep pg A" "rvi A"
  shows "rok pg (fst ` set (lents A)) A"
  unfolding rok_def
proof
  fix l assume l: "l \<in> set (leaves A)"
  show "aright l = 0 \<or>
     (\<exists>m. recover (aright l) pg = Some (PNode m) \<and> fst (data m ! 0) \<in> fst ` set (lents A))"
  proof (cases "aright l = 0")
    case True
    then show ?thesis by simp
  next
    case False
    have "aright l \<in> LR A" using l by (auto simp: LR_def)
    then have "aright l \<in> LP A" using assms(2) False by (auto simp: rvi_def)
    then obtain l' where l': "l' \<in> set (leaves A)" "aents l' \<noteq> []" "apid l' = aright l"
      by (auto simp: LP_def)
    have "rep pg l'" using subs_rep [OF assms(1) leaves_subs [OF l'(1)]] .
    from rep_top [OF this] obtain m where
      m: "0 < aright l" "nat (aright l) < length pg" "pg ! nat (aright l) = PNode m"
        "nmatch m (aright l) (aright l') (aents l') (map apid (akids l'))"
      using l'(3) by (auto simp: top_def)
    have "data m ! 0 = aents l' ! 0" using nmatch_data_nth [OF m(4), of 0] l'(2) by simp
    then have "data m ! 0 \<in> set (aents l')" using l'(2) by (metis length_greater_0_conv nth_mem)
    then have "data m ! 0 \<in> set (lents A)" using leaves_lents [OF l'(1)] by blast
    moreover have "recover (aright l) pg = Some (PNode m)" using m by (simp add: recover_def)
    ultimately show ?thesis by blast
  qed
qed

lemma BplusTree_find_ref:
  fixes t :: "'k::linorder bptree"
  assumes "tinv t A" "ord A" "ksorted (lents A)" "rvi A"
  shows "\<exists>it. BplusTree_find u t v = Some it \<and>
     (if fst v \<in> fst ` set (lents A)
      then \<not> is_end it \<and> deref it \<in> set (lents A) \<and> fst (deref it) = fst v
      else it = end_iter u)"
proof -
  have rp: "rep (pager t) A" and rt: "root_id t = apid A"
    using assms(1) by (simp_all add: tinv_def)
  obtain n where tp: "0 < apid A" "nat (apid A) < length (pager t)"
    and pn: "pager t ! nat (apid A) = PNode n"
    using rep_top [OF rp] by (auto simp: top_def)
  have rd: "read_node u t (root_id t) = Some n"
    using tp pn rt by (simp add: read_node_def recover_def)
  from find_helper_ref [OF rp assms(2,3) rvi_rok [OF rp assms(4)] subset_refl pn, of u v]
  obtain it where it: "find_helper u t v n = Some it"
    "fst v \<in> fst ` set (lents A) \<longrightarrow> page_id (current_pos it) \<noteq> - 1 \<and>
       deref it \<in> set (lents A) \<and> fst (deref it) = fst v"
    "fst v \<notin> fst ` set (lents A) \<longrightarrow> it = end_iter u \<or> fst (deref it) \<noteq> fst v"
    by blast
  have bf: "BplusTree_find u t v = Some (if key_eq (deref it) v then it else end_iter u)"
    using rd it(1) by (simp add: BplusTree_find_def)
  show ?thesis unfolding bf using it(2,3) by (auto simp: is_end_def key_eq_def)
qed

lemma is_end_end_iter: "is_end (end_iter u)"
  by (simp add: is_end_def end_iter_def Node_fields)

text \<open>
  C2. Round trip of \<^verbatim>\<open>insert\<close> and \<^verbatim>\<open>find\<close>. Whatever entries \<open>vs\<close> have been inserted
  into a fresh tree, in whatever order and with whatever repetitions, every \<^verbatim>\<open>insert\<close>
  returns, and so does \<^verbatim>\<open>find\<close> of any key \<open>k\<close>. If \<open>k\<close> is the key of an inserted entry,
  the iterator returned is not the end iterator (its node is a page of the file, so
  \<^verbatim>\<open>it != end()\<close> holds), and the entry it yields is one of the inserted entries and has the
  key \<open>k\<close>. Otherwise the iterator returned is the end iterator: index 0 on the node
  \<^verbatim>\<open>Node(-1)\<close>. The entry searched for is \<open>(k, i)\<close>: the comparisons of \<^verbatim>\<open>find_helper\<close> and of
  \<^verbatim>\<open>find\<close> look at the key only, so \<open>i\<close> plays no part.
\<close>

theorem find_round_trip:
  "\<exists>t it. inserts u vs = Some t \<and> BplusTree_find u t (k, i) = Some it \<and>
     (if k \<in> fst ` set vs
      then \<not> is_end it \<and> deref it \<in> set vs \<and> fst (deref it) = k
      else it = end_iter u \<and> is_end it)"
proof -
  obtain t where t: "inserts u vs = Some t" "tinv t (fst (ainserts vs))"
    using inserts_ref [of u vs] by blast
  have l: "ord (fst (ainserts vs))" "ksorted (lents (fst (ainserts vs)))"
    "set (lents (fst (ainserts vs))) = set vs"
    using ainserts_lents [of vs] by simp_all
  have r: "rvi (fst (ainserts vs))" using ainserts_rvi [of vs] by simp
  from BplusTree_find_ref [OF t(2) l(1,2) r, of u "(k, i)"] show ?thesis
    using t(1) is_end_end_iter [of u] unfolding l(3) by (auto split: if_splits)
qed

text \<open>
  Three entries, two of them with the key 5: \<^verbatim>\<open>find\<close> of the key 3 yields the entry
  \<open>(3, 2)\<close>, \<^verbatim>\<open>find\<close> of the key 4 the end iterator.
\<close>

theorem find_round_trip_witness:
  "(\<exists>t it. inserts (0::nat) [(5, 1), (3, 2), (5, 3)] = Some t \<and>
      BplusTree_find 0 t (3, 0) = Some it \<and> \<not> is_end it \<and> deref it = (3, 2)) \<and>
   (\<exists>t it. inserts (0::nat) [(5, 1), (3, 2), (5, 3)] = Some t \<and>
      BplusTree_find 0 t (4, 0) = Some it \<and> it = end_iter 0)"
  using find_round_trip [of 0 "[(5, 1), (3, 2), (5, 3)]" 3 0]
    find_round_trip [of 0 "[(5, 1), (3, 2), (5, 3)]" 4 0]
  by auto

section \<open>Pager\<close>

lemma offset_no_wrap:
  assumes "- (2 ^ 63) \<le> sint n * int S" "sint n * int S < 2 ^ 63"
  shows "offset S n = sint n * int S"
proof -
  have "n * of_nat S = (word_of_int (sint n * int S) :: 64 word)" by simp
  then have "offset S n = signed_take_bit 63 (sint n * int S)"
    unfolding offset_def by (simp only: sint_sbintrunc') simp
  also have "\<dots> = sint n * int S"
    using assms by (simp add: signed_take_bit_int_eq_self_iff)
  finally show ?thesis .
qed

text \<open>
  C10. For every slot index \<open>n\<close> (negative, inside the file, at or past its end),
  \<^verbatim>\<open>recover(n, out)\<close> returns true exactly when at least one byte was read from offset
  \<open>n * S\<close>, and when it returns false \<open>*out\<close> is as the caller left it. Proved for the \<open>n\<close> whose
  offset \<open>n * S\<close> is a signed 64-bit number: the call returns true exactly when
  \<open>0 \<le> n * S < length f\<close>; the bytes read are then the bytes of the file from \<open>n * S\<close> on, at
  most \<open>S\<close> and at least one of them, and \<open>*out\<close> holds them in front of the bytes it had
  beyond them; when the call returns false nothing was read and \<open>*out\<close> is unchanged.
\<close>

theorem recover_reads_at_offset:
  assumes "0 < S" and "- (2 ^ 63) \<le> sint n * int S" and "sint n * int S < 2 ^ 63"
  shows "(fst (Pager_recover S n reg f) \<longleftrightarrow> 0 \<le> sint n \<and> nat (sint n) * S < length f) \<and>
     (fst (Pager_recover S n reg f) \<longrightarrow>
        take S (drop (nat (sint n) * S) f) \<noteq> [] \<and>
        snd (Pager_recover S n reg f) =
          take S (drop (nat (sint n) * S) f) @
          drop (length (take S (drop (nat (sint n) * S) f))) reg) \<and>
     (\<not> fst (Pager_recover S n reg f) \<longrightarrow> snd (Pager_recover S n reg f) = reg)"
proof -
  have o: "offset S n = sint n * int S" using assms(2,3) by (rule offset_no_wrap)
  show ?thesis
  proof (cases "sint n < 0")
    case True
    then have "offset S n < 0" unfolding o using assms(1) by (simp add: mult_less_0_iff)
    then show ?thesis using True by (simp add: Pager_recover_def)
  next
    case False
    then have "0 \<le> offset S n" unfolding o by simp
    moreover have "nat (offset S n) = nat (sint n) * S"
      unfolding o using False by (simp add: nat_mult_distrib)
    ultimately show ?thesis using False assms(1)
      by (auto simp: Pager_recover_def Let_def)
  qed
qed

text \<open>
  Records of 8 bytes in a file of 20 bytes: slot 1 is read whole, slot 2 gives the four
  bytes the file has left, slot 3 and slot \<open>-1\<close> give nothing.
\<close>

theorem recover_reads_at_offset_witness:
  "Pager_recover 8 1 [0,0,0,0,0,0,0,0] [1,2,3,4,5,6,7,8,9,10,11,12,13,14,15,16,17,18,19,20]
     = (True, [9,10,11,12,13,14,15,16]) \<and>
   Pager_recover 8 2 [0,0,0,0,0,0,0,0] [1,2,3,4,5,6,7,8,9,10,11,12,13,14,15,16,17,18,19,20]
     = (True, [17,18,19,20,0,0,0,0]) \<and>
   Pager_recover 8 3 [0,0,0,0,0,0,0,0] [1,2,3,4,5,6,7,8,9,10,11,12,13,14,15,16,17,18,19,20]
     = (False, [0,0,0,0,0,0,0,0]) \<and>
   Pager_recover 8 (- 1) [0,0,0,0,0,0,0,0] [1,2,3,4,5,6,7,8,9,10,11,12,13,14,15,16,17,18,19,20]
     = (False, [0,0,0,0,0,0,0,0])"
proof -
  let ?f = "[1,2,3,4,5,6,7,8,9,10,11,12,13,14,15,16,17,18,19,20] :: byte list"
  let ?z = "[0,0,0,0,0,0,0,0] :: byte list"
  have s: "sint (1 :: 64 word) = 1" "sint (2 :: 64 word) = 2" "sint (3 :: 64 word) = 3"
    "sint (- 1 :: 64 word) = - 1" by simp_all
  note t = recover_reads_at_offset [where S = 8 and reg = ?z and f = ?f]
  have "Pager_recover 8 1 ?z ?f = (True, [9,10,11,12,13,14,15,16])"
    using t [of 1] by (simp add: s prod_eq_iff)
  moreover have "Pager_recover 8 2 ?z ?f = (True, [17,18,19,20,0,0,0,0])"
    using t [of 2] by (simp add: s prod_eq_iff)
  moreover have "Pager_recover 8 3 ?z ?f = (False, ?z)"
    using t [of 3] by (simp add: s prod_eq_iff)
  moreover have "Pager_recover 8 (- 1) ?z ?f = (False, ?z)"
    using t [of "- 1"] by (simp add: s prod_eq_iff)
  ultimately show ?thesis by simp
qed

text \<open>
  Beyond that range the product \<open>n * sizeof(Register)\<close> wraps modulo \<open>2^64\<close>: for records of 8
  bytes slot \<open>2^61\<close> is read at offset 0, and the call returns true with the first record of
  the file although the file ends long before \<open>2^61 * 8\<close>.
\<close>

theorem recover_wraps_offset:
  "fst (Pager_recover 8 (2 ^ 61) [0,0,0,0,0,0,0,0] [1,2,3,4,5,6,7,8,9]) \<and>
   snd (Pager_recover 8 (2 ^ 61) [0,0,0,0,0,0,0,0] [1,2,3,4,5,6,7,8,9]) = [1,2,3,4,5,6,7,8] \<and>
   \<not> nat (sint (2 ^ 61 :: 64 word)) * 8 < length [1,2,3,4,5,6,7,8,9 :: byte]"
  by (simp add: Pager_recover_def offset_def)

text \<open>
  C9. Pager construction with \<open>create = false\<close> raises \<^verbatim>\<open>database_not_exist\<close> exactly when the
  file is absent and \<^verbatim>\<open>database_opening_error\<close> exactly when it is present but cannot be read;
  with \<open>create = true\<close> it raises neither, truncates the file and sets \<open>empty\<close>. The code at
  three inputs: a file that is present but cannot be opened raises \<^verbatim>\<open>database_not_exist\<close>;
  \<^verbatim>\<open>database_opening_error\<close> is raised for no input; a file that is present and can be opened
  keeps its bytes under \<open>create = true\<close>.
\<close>

theorem pager_open_failing:
  "Pager_new (Locked bs) False = Inl database_not_exist \<and>
   (\<forall>fs create. Pager_new fs create \<noteq> Inl database_opening_error) \<and>
   Pager_new (Present [1, 2, 3]) True =
     Inr (\<lparr>emptyf = True, is_open = True, fail = True\<rparr>, Present [1, 2, 3])"
  by (auto simp: Pager_new_def fstream_open_def reopen_trunc_def Let_def split: file_status.splits)

section \<open>TopK: the streaming pass and the printout\<close>

lemma get_id_failed:
  "get_id TkRecord_size TkRecord_size True f = 271275648142787523"
  by (simp add: get_id_def TkRecord_size_def)

text \<open>On an empty record file whose stream is failed the bound stays out of reach.\<close>

lemma topk_loop_failed_empty:
  "rm_fail tk \<Longrightarrow> record_manager tk = [] \<Longrightarrow> i < 2 ^ 31 \<Longrightarrow> topk_loop w mh ph N i tk = None"
proof (induction w mh ph N i tk rule: topk_loop.induct)
  case (1 w mh ph N i tk)
  define r where "r = read_record \<lparr>tcount = 0, tkname = w\<rparr> i (record_manager tk)"
  define tk1 where "tk1 = tk\<lparr>rm_fail := recover_fails i (record_manager tk)\<rparr>"
  have lt: "i < get_id TkRecord_size TkRecord_size (rm_fail tk) (record_manager tk)"
    using 1(2,4) by (simp add: get_id_failed)
  have f1: "rm_fail tk1" "record_manager tk1 = []"
    using 1(3) by (simp_all add: tk1_def recover_fails_def recover_def)
  show ?case
  proof (cases "pop_loop mh ph N (mh (vec tk1 @ [r]))")
    case None
    then show ?thesis
      by (subst topk_loop.simps) (simp add: lt Let_def r_def [symmetric] tk1_def [symmetric])
  next
    case (Some v)
    have "topk_loop w mh ph N (i + 1) (tk1\<lparr>vec := v\<rparr>) = None" if "i + 1 < 2 ^ 31"
      using 1(1) [OF lt r_def tk1_def _ that, of v] Some f1 that by simp
    then show ?thesis
      by (subst topk_loop.simps) (simp add: lt Let_def r_def [symmetric] tk1_def [symmetric] Some)
  qed
qed

text \<open>
  C8. For a record file of \<open>M\<close> records and every \<open>N\<close>, \<^verbatim>\<open>make_topk(N)\<close> retains exactly the
  \<open>min(M, N)\<close> records of largest count, and \<^verbatim>\<open>print(K)\<close> with \<open>K \<le> min(M, N)\<close> emits \<open>K\<close> of them
  in non-increasing count. The code over the counts a:5, b:2, c:7, d:1, e:4:
  \<^item> the first \<^verbatim>\<open>make_topk(3)\<close> retains three records and \<^verbatim>\<open>print(2)\<close> prints c (7), a (5);
  \<^item> a second \<^verbatim>\<open>make_topk(3)\<close> starts from the vector the first one left: \<^verbatim>\<open>print(3)\<close> then
    prints c (7), c (7), a (5);
  \<^item> with \<open>N = 1024\<close>, the value \<^verbatim>\<open>execute_read\<close> passes, the second call leaves ten records for
    the five of the file, and \<^verbatim>\<open>print(2)\<close> prints c (7) twice;
  \<^item> \<^verbatim>\<open>make_topk(-1)\<close> retains all five records;
  \<^item> on an empty record file whose stream a failed \<^verbatim>\<open>save\<close> has left in error (the state
    \<^verbatim>\<open>insert\<close> leaves in C7), \<^verbatim>\<open>make_topk\<close> does not return, whatever the library does.
\<close>

theorem make_topk_keeps_stale_records:
  "Option.bind (make_topk [] make_heap_gt0 pop_heap_lt0 3 scenario6) (\<lambda>tk1.
   Option.bind (TopK_print sort_gt0 2 tk1) (\<lambda>(tk1', out1).
   Option.bind (make_topk [] make_heap_gt0 pop_heap_lt0 3 tk1) (\<lambda>tk2.
   Option.bind (TopK_print sort_gt0 3 tk2) (\<lambda>(tk2', out2).
     Some (length (vec tk1), out1, length (vec tk2), out2)))))
   = Some (3, [(''c'', 7), (''a'', 5)], 3, [(''c'', 7), (''c'', 7), (''a'', 5)]) \<and>
   Option.bind (make_topk [] make_heap_gt0 pop_heap_lt0 1024 scenario6) (\<lambda>tk1.
   Option.bind (make_topk [] make_heap_gt0 pop_heap_lt0 1024 tk1) (\<lambda>tk2.
   Option.bind (TopK_print sort_gt0 2 tk2) (\<lambda>(tk2', out2).
     Some (length (vec tk1), length (vec tk2), out2))))
   = Some (5, 10, [(''c'', 7), (''c'', 7)]) \<and>
   map_option (\<lambda>tk. length (vec tk)) (make_topk [] make_heap_gt0 pop_heap_lt0 (- 1) scenario6)
   = Some 5 \<and>
   make_topk w mh ph N ((TopK_new u)\<lparr>rm_fail := True\<rparr>) = None"
proof -
  have "make_topk w mh ph N ((TopK_new u)\<lparr>rm_fail := True\<rparr>) = None"
    unfolding make_topk_def by (rule topk_loop_failed_empty) (simp_all add: TopK_new_def)
  moreover have
    "Option.bind (make_topk [] make_heap_gt0 pop_heap_lt0 3 scenario6) (\<lambda>tk1.
     Option.bind (TopK_print sort_gt0 2 tk1) (\<lambda>(tk1', out1).
     Option.bind (make_topk [] make_heap_gt0 pop_heap_lt0 3 tk1) (\<lambda>tk2.
     Option.bind (TopK_print sort_gt0 3 tk2) (\<lambda>(tk2', out2).
       Some (length (vec tk1), out1, length (vec tk2), out2)))))
     = Some (3, [(''c'', 7), (''a'', 5)], 3, [(''c'', 7), (''c'', 7), (''a'', 5)])"
    by code_simp
  moreover have
    "Option.bind (make_topk [] make_heap_gt0 pop_heap_lt0 1024 scenario6) (\<lambda>tk1.
     Option.bind (make_topk [] make_heap_gt0 pop_heap_lt0 1024 tk1) (\<lambda>tk2.
     Option.bind (TopK_print sort_gt0 2 tk2) (\<lambda>(tk2', out2).
       Some (length (vec tk1), length (vec tk2), out2))))
     = Some (5, 10, [(''c'', 7), (''c'', 7)])"
    by code_simp
  moreover have
    "map_option (\<lambda>tk. length (vec tk)) (make_topk [] make_heap_gt0 pop_heap_lt0 (- 1) scenario6)
     = Some 5"
    by code_simp
  ultimately show ?thesis by blast
qed

text \<open>
  C7. \<^verbatim>\<open>TopK::insert(name)\<close> either increments the record whose tree entry matches
  \<open>hash(name)\<close> and whose stored name is the name, or appends a fresh record with count 1 and
  a new tree entry; on a miss the record read from slot \<open>-1\<close> must lead to the fresh entry.
  The code on a fresh \<^verbatim>\<open>TopK\<close> when the bytes of the uninitialised \<open>r.tkname\<close> spell the name:
  the read of slot \<open>-1\<close> fails, the comparison finds the names equal, the write to slot
  \<open>-1\<close> fails, and nothing is recorded: the record file and the tree are as before, and
  the stream of the record file is left in error.
\<close>

theorem topk_insert_trusts_failed_read:
  "TopK_insert 0 ''Bob'' len_hash ''Bob'' (TopK_new 0) = Some ((TopK_new 0)\<lparr>rm_fail := True\<rparr>)"
  by code_simp

section \<open>InvertedIndex\<close>

text \<open>
  C6. \<^verbatim>\<open>InvertedIndex::find\<close> returns the intersection, over the query tokens, of the extents
  saved for the inserted words whose hash is the token's. The code when the index also
  holds a word whose hash is one less (here the hash is the length): the search for
  \<open>abc\<close> starts at the entry of \<open>ab\<close>, whose key is not the token's hash, and returns
  nothing, although \<open>abc\<close> was inserted with extent \<open>(10, 5)\<close>.
\<close>

theorem inverted_find_misses_after_adjacent_hash:
  "Option.bind (build 0 len_hash [''ab''] 5 1 (SubDatabase_new 0)) (\<lambda>ii.
   Option.bind (build 0 len_hash [''abc''] 10 5 ii) (\<lambda>ii.
     InvertedIndex_find 0 len_hash ii [''abc''])) = Some []"
  by code_simp

section \<open>Lower bound and prefix search among equal keys\<close>

text \<open>
  C3. \<^verbatim>\<open>find_geq(k)\<close> returns the iterator at the first entry in leaf order whose key is
  \<open>\<ge> k\<close>. The code after the keys 1 to 65 and then 33 again (with id 100): the second 33 is
  the last entry of the left leaf (page 2, index 32), and \<^verbatim>\<open>find_geq(33)\<close> returns the entry
  after it, the first of the right leaf (page 3, index 0).
\<close>

theorem find_geq_skips_equal_key:
  "Option.bind (inserts 0 keys66) (\<lambda>t.
   Option.bind (read_node 0 t 2) (\<lambda>n.
   Option.bind (BplusTree_find_geq 0 t (33, - 1)) (\<lambda>it.
     Some (count n, data n ! 32, page_id (current_pos it), index it, deref it,
           iter_inc 0 (pager t) \<lparr>index = 32, current_pos = n\<rparr> = Some it))))
   = Some (33, (33, 100), 3, 0, (33, 33), True)"
  by code_simp

text \<open>
  C4. \<^verbatim>\<open>Database::find(prefix, field)\<close> returns exactly the inserted entries whose key begins
  with the prefix, with their extents, in key order. The code after 65 authors \<open>aa\<close> to
  \<open>cm\<close> at extents \<open>(0, 1)\<close> to \<open>(64, 1)\<close> and then \<open>bg\<close> again at \<open>(65, 1)\<close>:
  \<^verbatim>\<open>find("bg")\<close> returns the entry of extent \<open>(32, 1)\<close> only.
\<close>

theorem database_find_misses_duplicate:
  "Option.bind
     (Database_inserts []
        (map (\<lambda>(i, k). (\<lparr>pos = of_nat i, len = 1\<rparr>, k)) (zip [0..<66] (names65 @ [''bg''])))
        AUTHOR (Database_new []))
     (Database_find [] ''bg'' AUTHOR)
   = Some [(\<lparr>pos = 32, len = 1\<rparr>, ''bg'')]"
  by code_simp

section \<open>Node counts after the first split\<close>

lemma level_keys65:
  "Option.bind (inserts 0 keys65) (\<lambda>t. Some (root_id t, level t 1)) = Some (1, [2, 3])"
  by code_simp

theorem insert_keeps_node_counts_witness:
  "\<exists>t. inserts (0::nat) keys65 = Some t \<and> root_id t = 1 \<and> level t 1 = [2, 3] \<and>
     (\<exists>n. recover 2 (pager t) = Some (PNode n) \<and> count n \<le> ORDER \<and>
          (ORDER + 1) div 2 \<le> count n)"
proof -
  from insert_keeps_node_counts [of 0 keys65] obtain t where
    t: "inserts 0 keys65 = Some t"
      "\<forall>d. \<forall>p\<in>set (level t d).
         \<exists>n. recover p (pager t) = Some (PNode n) \<and> count n \<le> ORDER \<and>
             (p \<noteq> root_id t \<longrightarrow> (ORDER + 1) div 2 \<le> count n)"
    by blast
  have l: "root_id t = 1" "level t 1 = [2, 3]"
    using level_keys65 t(1) by (simp_all del: level.simps)
  have "2 \<in> set (level t 1)" unfolding l(2) by simp
  moreover have "2 \<noteq> root_id t" unfolding l(1) by simp
  ultimately have "\<exists>n. recover 2 (pager t) = Some (PNode n) \<and> count n \<le> ORDER \<and>
      (ORDER + 1) div 2 \<le> count n"
    using t(2) by blast
  then show ?thesis using t(1) l by blast
qed

end
